theory Spec2Isabelle
  imports Main "HOL-Library.Word"
begin

section \<open>Params (router.go)\<close>

text \<open>
  \<^verbatim>\<open>type Param struct { Key string; Value string }\<close> and
  \<^verbatim>\<open>type Params []Param\<close>. A Go string is a byte string; it is modelled as a
  \<^typ>\<open>string\<close>. A nil slice and an empty slice are both the empty list.
\<close>

record Param =
  Key :: string
  Value :: string

type_synonym Params = "Param list"

text \<open>
  \<^verbatim>\<open>func (ps Params) ByName(name string) string\<close>: the range loop returns at the
  first element whose key is the name; after the loop the empty string is returned.
\<close>

fun ByName :: "Params \<Rightarrow> string \<Rightarrow> string" where
  "ByName [] name = []"
| "ByName (p # ps) name = (if Key p = name then Value p else ByName ps name)"

section \<open>Handlers and configuration (router.go)\<close>

text \<open>
  A call of a Go function value either returns or panics. \<open>Panics rcv\<close> carries what
  \<^verbatim>\<open>recover()\<close> yields for that panic: \<open>None\<close> is the nil interface value (it is
  what \<^verbatim>\<open>recover()\<close> gives for \<^verbatim>\<open>panic(nil)\<close> before Go 1.21). An \<^verbatim>\<open>error\<close> result
  is \<open>None\<close> when nil.
\<close>

datatype ('e, 'v) result = Returns bool "'e option" | Panics "'v option"

text \<open>
  \<^verbatim>\<open>type Handle[W any] func(ctx context.Context, reqPath string, p Params, rw W) (bool, error)\<close>.
  The router treats a handle as opaque; its effect is recorded as one event of the
  trace when it is called.
\<close>

type_synonym ('c, 'w, 'e, 'v) Handle = "'c \<Rightarrow> string \<Rightarrow> Params \<Rightarrow> 'w \<Rightarrow> ('e, 'v) result"

text \<open>
  \<^verbatim>\<open>PanicHandler func(ctx context.Context, reqPath string, rw W, panicErr interface{})\<close>
  has no result; it returns or panics.
\<close>

datatype 'v trap_result = TrapReturns | TrapPanics "'v option"

record ('c, 'w, 'e, 'v) RouterConfig =
  RedirectTrailingSlash :: bool
  RedirectFixedPath :: bool
  NotFound :: "('c, 'w, 'e, 'v) Handle option"
  PanicHandler :: "('c \<Rightarrow> string \<Rightarrow> 'w \<Rightarrow> 'v \<Rightarrow> 'v trap_result) option"

text \<open>
  \<^verbatim>\<open>type Router[W any] struct { conf; tree *node[W]; paramsPool sync.Pool; maxParams uint16 }\<close>.
  \<open>tree\<close> is \<open>None\<close> for the nil pointer. Of the pool the record keeps its
  configuration, whether \<^verbatim>\<open>paramsPool.New\<close> is set; the traffic of buffers through
  the pool is recorded in the trace (\<open>PoolGet\<close>, \<open>PoolPut\<close>).
\<close>

record ('c, 'w, 'e, 'v, 'n) Router =
  conf :: "('c, 'w, 'e, 'v) RouterConfig"
  tree :: "'n option"
  paramsPoolNew :: bool
  maxParams :: "16 word"

definition DefaultConfig :: "('c, 'w, 'e, 'v) RouterConfig" where
  "DefaultConfig = \<lparr>RedirectTrailingSlash = True, RedirectFixedPath = True,
     NotFound = None, PanicHandler = None\<rparr>"

definition NewWithConfig :: "('c, 'w, 'e, 'v) RouterConfig \<Rightarrow> ('c, 'w, 'e, 'v, 'n) Router" where
  "NewWithConfig cf = \<lparr>conf = cf, tree = None, paramsPoolNew = False, maxParams = 0\<rparr>"

definition New :: "('c, 'w, 'e, 'v, 'n) Router" where
  "New = NewWithConfig DefaultConfig"

section \<open>The radix tree as a parameter\<close>

text \<open>
  Modelled from the spec: the radix tree (type \<^verbatim>\<open>node[W]\<close> with \<^verbatim>\<open>addRoute\<close>,
  \<^verbatim>\<open>getValue\<close>, \<^verbatim>\<open>findCaseInsensitivePath\<close>, and \<^verbatim>\<open>countParams\<close>) is not among the
  sources; router.go only calls it. The router is therefore modelled over any tree,
  given as a record of its operations on a node type \<open>'n\<close>:
  \<^item> \<open>newNode\<close> is \<^verbatim>\<open>new(node[W])\<close>;
  \<^item> \<open>addRoute path handle n\<close> is \<^verbatim>\<open>n.addRoute(path, handle)\<close>: the node after the
    call and, when the registration fails (section 7 of the spec), the value it
    panics with;
  \<^item> \<open>getValue n path\<close> is \<^verbatim>\<open>n.getValue(path, r.getParams)\<close>: the handle (\<open>None\<close> for
    nil), the buffer pointer \<^verbatim>\<open>ps\<close> and the trailing-slash recommendation. By
    section 4.3 the buffer is taken from the pool lazily, on the first placeholder
    bind: \<open>Some ps\<close> means that \<^verbatim>\<open>r.getParams\<close> was called once and the buffer
    now holds \<open>ps\<close>; \<open>None\<close> is the nil pointer and no call;
  \<^item> \<open>findCaseInsensitivePath n path fixTrailingSlash\<close> yields the fixed path and
    whether one was found;
  \<^item> \<open>countParams path\<close> is a \<^verbatim>\<open>uint16\<close>.
\<close>

record ('n, 'h, 'v) tree_ops =
  newNode :: 'n
  addRoute :: "string \<Rightarrow> 'h \<Rightarrow> 'n \<Rightarrow> 'v option option \<times> 'n"
  getValue :: "'n \<Rightarrow> string \<Rightarrow> 'h option \<times> Params option \<times> bool"
  findCaseInsensitivePath :: "'n \<Rightarrow> string \<Rightarrow> bool \<Rightarrow> string \<times> bool"
  countParams :: "string \<Rightarrow> 16 word"

section \<open>The path cleaner\<close>

text \<open>
  Modelled from the spec: \<^verbatim>\<open>CleanPath\<close> is not among the sources; router.go only calls
  it. Section 4.1 of the spec gives its rules: an empty path becomes \<open>/\<close>; a path
  that does not begin with \<open>/\<close> gets one prepended; a run of \<open>/\<close> collapses to one
  (empty segments vanish); a segment \<open>.\<close> is skipped; a segment \<open>..\<close> drops the
  previous segment of the output and never goes above the root; a trailing \<open>/\<close>
  is kept if and only if the input ended in \<open>/\<close> and the result is not the root.
\<close>

text \<open>The segments of a path: the pieces between its slashes.\<close>

fun splitPath :: "string \<Rightarrow> string list" where
  "splitPath [] = [[]]"
| "splitPath (c # cs) =
     (if c = CHR ''/'' then [] # splitPath cs
      else (case splitPath cs of [] \<Rightarrow> [[c]] | s # ss \<Rightarrow> (c # s) # ss))"

fun joinPath :: "string list \<Rightarrow> string" where
  "joinPath [] = []"
| "joinPath [s] = s"
| "joinPath (s # t # ss) = s @ CHR ''/'' # joinPath (t # ss)"

text \<open>One segment read, left to right; \<open>out\<close> holds the segments written so far.\<close>

definition cleanStep :: "string list \<Rightarrow> string \<Rightarrow> string list" where
  "cleanStep out seg =
     (if seg = [] \<or> seg = ''.'' then out
      else if seg = ''..'' then butlast out
      else out @ [seg])"

definition renderPath :: "string list \<Rightarrow> bool \<Rightarrow> string" where
  "renderPath out trailing =
     CHR ''/'' # joinPath out @ (if trailing \<and> out \<noteq> [] then ''/'' else [])"

definition CleanPath :: "string \<Rightarrow> string" where
  "CleanPath p =
     (if p = [] then ''/''
      else renderPath
             (foldl cleanStep [] (splitPath (if hd p \<noteq> CHR ''/'' then CHR ''/'' # p else p)))
             (last p = CHR ''/''))"

text \<open>
  A segment that the cleaner writes to its output: not empty, neither \<open>.\<close> nor
  \<open>..\<close>, and without a slash.
\<close>

definition realSeg :: "string \<Rightarrow> bool" where
  "realSeg s \<longleftrightarrow> s \<noteq> [] \<and> s \<noteq> ''.'' \<and> s \<noteq> ''..'' \<and> CHR ''/'' \<notin> set s"

section \<open>The router (router.go)\<close>

text \<open>
  What the router does to its surroundings during a call, in order:
  \<^verbatim>\<open>r.getParams\<close> (a buffer borrowed from \<^verbatim>\<open>paramsPool\<close>), \<^verbatim>\<open>r.putParams\<close> of a
  non-nil buffer (returned to the pool), a call of a route handle, of
  \<^verbatim>\<open>conf.NotFound\<close>, of \<^verbatim>\<open>conf.PanicHandler\<close>, of \<^verbatim>\<open>findCaseInsensitivePath\<close>, and a
  nested call of \<^verbatim>\<open>r.Serve\<close>. A call of a handler is recorded with its arguments
  and with how it ended.
\<close>

datatype ('c, 'w, 'e, 'v) event =
    PoolGet
  | PoolPut
  | CallHandle 'c string Params 'w "('e, 'v) result"
  | CallNotFound 'c string Params 'w "('e, 'v) result"
  | CallPanicHandler 'c string 'w 'v "'v trap_result"
  | CallFindCaseInsensitivePath string bool
  | CallServe 'c string 'w

text \<open>
  \<^verbatim>\<open>getParams\<close> is called inside \<^verbatim>\<open>getValue\<close>, once if the returned pointer is not
  nil. \<^verbatim>\<open>putParams\<close> puts a non-nil pointer back and ignores nil. \<^verbatim>\<open>getParams\<close>
  dereferences what the pool gives; that the pool gives nil (no \<^verbatim>\<open>New\<close> and no idle
  buffer) is not modelled: a placeholder is bound only for a registered pattern
  with placeholders, and \<^verbatim>\<open>AddHandler\<close> has set \<^verbatim>\<open>New\<close> for it.
\<close>

definition getParams :: "Params option \<Rightarrow> ('c, 'w, 'e, 'v) event list" where
  "getParams ps = (case ps of None \<Rightarrow> [] | Some _ \<Rightarrow> [PoolGet])"

definition putParams :: "Params option \<Rightarrow> ('c, 'w, 'e, 'v) event list" where
  "putParams ps = (case ps of None \<Rightarrow> [] | Some _ \<Rightarrow> [PoolPut])"

text \<open>
  \<^verbatim>\<open>AddHandler\<close>. A nil handle returns at once. Otherwise the path is normalised
  (empty becomes \<open>/\<close>, a missing leading slash is prepended), the root is created
  if the tree is nil and stored in the router before \<^verbatim>\<open>addRoute\<close> runs, and after
  a registration that did not panic \<open>maxParams\<close> and the pool's \<open>New\<close> are updated
  (\<^verbatim>\<open>varsCount\<close> is never assigned and stays 0). The result is the panic in flight,
  if any, and the router after the call.
\<close>

definition AddHandler ::
  "('n, ('c, 'w, 'e, 'v) Handle, 'v) tree_ops \<Rightarrow> ('c, 'w, 'e, 'v, 'n) Router \<Rightarrow> string
     \<Rightarrow> ('c, 'w, 'e, 'v) Handle option \<Rightarrow> 'v option option \<times> ('c, 'w, 'e, 'v, 'n) Router" where
  "AddHandler ops r path0 handle =
     (case handle of
        None \<Rightarrow> (None, r)
      | Some h \<Rightarrow>
          (let path = (if length path0 = 0 then ''/''
                       else if path0 ! 0 \<noteq> CHR ''/'' then ''/'' @ path0 else path0);
               varsCount = (0 :: 16 word);
               root = (case tree r of None \<Rightarrow> newNode ops | Some n \<Rightarrow> n);
               (pnc, root') = addRoute ops path h root;
               r1 = r\<lparr>tree := Some root'\<rparr>
           in case pnc of
                Some rcv \<Rightarrow> (Some rcv, r1)
              | None \<Rightarrow>
                  (let paramsCount = countParams ops path;
                       r2 = (if paramsCount + varsCount > maxParams r1
                             then r1\<lparr>maxParams := paramsCount + varsCount\<rparr> else r1);
                       r3 = (if \<not> paramsPoolNew r2 \<and> maxParams r2 > 0
                             then r2\<lparr>paramsPoolNew := True\<rparr> else r2)
                   in (None, r3))))"

text \<open>
  \<^verbatim>\<open>recoverPanic\<close>, run as a deferred call on the outcome of the body of \<^verbatim>\<open>Serve\<close>.
  When the body returned, \<^verbatim>\<open>recover()\<close> is nil and nothing happens. When it
  panicked, \<^verbatim>\<open>recover()\<close> stops the panic and yields its value; the panic handler is
  called if that value and the handler are not nil, and a panic of the handler is
  stopped by the inner deferred \<^verbatim>\<open>recover()\<close>. After a recovered panic \<^verbatim>\<open>Serve\<close>
  returns the zero values of its unnamed results.
\<close>

definition recoverPanic ::
  "('c, 'w, 'e, 'v) RouterConfig \<Rightarrow> 'c \<Rightarrow> string \<Rightarrow> 'w
     \<Rightarrow> ('e, 'v) result \<times> ('c, 'w, 'e, 'v) event list \<Rightarrow> ('e, 'v) result \<times> ('c, 'w, 'e, 'v) event list" where
  "recoverPanic cf ctx reqPath wr res =
     (case res of
        (Returns found err, log) \<Rightarrow> (Returns found err, log)
      | (Panics rcv, log) \<Rightarrow>
          (case (rcv, PanicHandler cf) of
             (Some v, Some ph) \<Rightarrow>
               (case ph ctx reqPath wr v of
                  TrapReturns \<Rightarrow>
                    (Returns False None, log @ [CallPanicHandler ctx reqPath wr v TrapReturns])
                | TrapPanics rcv' \<Rightarrow>
                    (Returns False None, log @ [CallPanicHandler ctx reqPath wr v (TrapPanics rcv')]))
           | _ \<Rightarrow> (Returns False None, log)))"

text \<open>
  \<^verbatim>\<open>LookupPath\<close>: the handle, the parameters and the recommendation, with the pool
  traffic of the call.
\<close>

definition LookupPath ::
  "('n, ('c, 'w, 'e, 'v) Handle, 'v) tree_ops \<Rightarrow> ('c, 'w, 'e, 'v, 'n) Router \<Rightarrow> string
     \<Rightarrow> (('c, 'w, 'e, 'v) Handle option \<times> Params \<times> bool) \<times> ('c, 'w, 'e, 'v) event list" where
  "LookupPath ops r path =
     (case tree r of
        Some root \<Rightarrow>
          (case getValue ops root path of (handle, ps, tsr) \<Rightarrow>
             (case handle of
                None \<Rightarrow> ((None, [], tsr), getParams ps @ putParams ps)
              | Some h \<Rightarrow>
                  (case ps of
                     None \<Rightarrow> ((Some h, [], tsr), getParams ps)
                   | Some params \<Rightarrow> ((Some h, params, tsr), getParams ps))))
      | None \<Rightarrow> ((None, [], False), []))"

text \<open>The tail of \<^verbatim>\<open>Serve\<close> after the comment \<^verbatim>\<open>// not found\<close>.\<close>

definition notFound ::
  "('c, 'w, 'e, 'v) RouterConfig \<Rightarrow> 'c \<Rightarrow> string \<Rightarrow> 'w
     \<Rightarrow> ('e, 'v) result \<times> ('c, 'w, 'e, 'v) event list" where
  "notFound cf ctx reqPath wr =
     (case NotFound cf of
        None \<Rightarrow> (Returns False None, [])
      | Some nf \<Rightarrow> (nf ctx reqPath [] wr, [CallNotFound ctx reqPath [] wr (nf ctx reqPath [] wr)]))"

text \<open>
  The branch of \<^verbatim>\<open>Serve\<close> for a handle that was found. The deferred
  \<^verbatim>\<open>r.putParams(ps)\<close> runs when \<^verbatim>\<open>Serve\<close> is left, also by a panic, and so after
  the not-found handler when the handle returned \<open>(false, nil)\<close>.
\<close>

definition serveHandle ::
  "('c, 'w, 'e, 'v) RouterConfig \<Rightarrow> 'c \<Rightarrow> string \<Rightarrow> 'w \<Rightarrow> ('c, 'w, 'e, 'v) Handle
     \<Rightarrow> Params option \<Rightarrow> ('e, 'v) result \<times> ('c, 'w, 'e, 'v) event list" where
  "serveHandle cf ctx reqPath wr handle ps =
     (let params = (case ps of None \<Rightarrow> [] | Some p \<Rightarrow> p);
          called = getParams ps @
            [CallHandle ctx reqPath params wr (handle ctx reqPath params wr)]
      in case handle ctx reqPath params wr of
           Panics rcv \<Rightarrow> (Panics rcv, called @ putParams ps)
         | Returns found handlerErr \<Rightarrow>
             (if found \<or> handlerErr \<noteq> None then (Returns found handlerErr, called @ putParams ps)
              else (case notFound cf ctx reqPath wr of
                      (res, log) \<Rightarrow> (res, called @ log @ putParams ps))))"

text \<open>The slash toggled, as before the first nested call of \<^verbatim>\<open>Serve\<close>.\<close>

definition toggleSlash :: "string \<Rightarrow> string" where
  "toggleSlash reqPath =
     (if length reqPath > 1 \<and> reqPath ! (length reqPath - 1) = CHR ''/''
      then take (length reqPath - 1) reqPath
      else reqPath @ ''/'')"

text \<open>
  \<^verbatim>\<open>Serve\<close>. It calls itself with the toggled or the fixed path, and nothing in
  router.go bounds these calls: a run that never returns is \<open>None\<close>. A run that
  returns gives the outcome and the trace. \<^verbatim>\<open>recoverPanic\<close> is deferred first, with
  the request path as passed (before an empty path is replaced), and so runs last.
\<close>

partial_function (option) Serve ::
  "('n, ('c, 'w, 'e, 'v) Handle, 'v) tree_ops \<Rightarrow> ('c, 'w, 'e, 'v, 'n) Router \<Rightarrow> 'c \<Rightarrow> string \<Rightarrow> 'w
     \<Rightarrow> (('e, 'v) result \<times> ('c, 'w, 'e, 'v) event list) option" where
  "Serve ops r ctx reqPath0 wr =
     Option.bind
       (let reqPath = (if reqPath0 = [] then ''/'' else reqPath0) in
        case tree r of
          None \<Rightarrow> Some (notFound (conf r) ctx reqPath wr)
        | Some root \<Rightarrow>
            (case getValue ops root reqPath of (handle, ps, tsr) \<Rightarrow>
               (case handle of
                  Some h \<Rightarrow> Some (serveHandle (conf r) ctx reqPath wr h ps)
                | None \<Rightarrow>
                    (if reqPath \<noteq> ''/'' \<and> reqPath \<noteq> [] then
                       (if tsr \<and> RedirectTrailingSlash (conf r) then
                          Option.bind (Serve ops r ctx (toggleSlash reqPath) wr)
                            (\<lambda>(res, log). Some (res,
                               getParams ps @ CallServe ctx (toggleSlash reqPath) wr # log))
                        else if RedirectFixedPath (conf r) then
                          (case findCaseInsensitivePath ops root (CleanPath reqPath)
                                  (RedirectTrailingSlash (conf r)) of
                             (fixedPath, fixedFound) \<Rightarrow>
                               (let tried = getParams ps @
                                      [CallFindCaseInsensitivePath (CleanPath reqPath)
                                         (RedirectTrailingSlash (conf r))]
                                in if fixedFound then
                                     Option.bind (Serve ops r ctx fixedPath wr)
                                       (\<lambda>(res, log). Some (res,
                                          tried @ CallServe ctx fixedPath wr # log))
                                   else (case notFound (conf r) ctx reqPath wr of
                                           (res, log) \<Rightarrow> Some (res, tried @ log))))
                        else (case notFound (conf r) ctx reqPath wr of
                                (res, log) \<Rightarrow> Some (res, getParams ps @ log)))
                     else (case notFound (conf r) ctx reqPath wr of
                             (res, log) \<Rightarrow> Some (res, getParams ps @ log))))))
       (\<lambda>body. Some (if PanicHandler (conf r) \<noteq> None
                      then recoverPanic (conf r) ctx reqPath0 wr body else body))"

section \<open>Notions for the proofs about \<open>Serve\<close>\<close>

text \<open>
  The value a route handle or the not-found handler panicked with, read off the
  event of its call; and the events that are calls of the panic handler.
\<close>

fun handlerPanic :: "('c, 'w, 'e, 'v) event \<Rightarrow> 'v option option" where
  "handlerPanic (CallHandle ctx reqPath p rw (Panics rcv)) = Some rcv"
| "handlerPanic (CallNotFound ctx reqPath p rw (Panics rcv)) = Some rcv"
| "handlerPanic ev = None"

fun isPanicHandlerCall :: "('c, 'w, 'e, 'v) event \<Rightarrow> bool" where
  "isPanicHandlerCall (CallPanicHandler ctx reqPath rw v res) = True"
| "isPanicHandlerCall ev = False"

text \<open>
  A run without recovery propagates panics: whenever a handler call of the trace
  panicked, the run ended in a panic with the same value. A trace is untrapped when
  the panic handler was not called in it.
\<close>

definition propagates :: "('e, 'v) result \<times> ('c, 'w, 'e, 'v) event list \<Rightarrow> bool" where
  "propagates x \<longleftrightarrow> (\<forall>ev \<in> set (snd x). \<forall>rcv. handlerPanic ev = Some rcv \<longrightarrow> fst x = Panics rcv)"

definition untrapped :: "('c, 'w, 'e, 'v) event list \<Rightarrow> bool" where
  "untrapped log \<longleftrightarrow> filter isPanicHandlerCall log = []"

text \<open>
  The body of \<^verbatim>\<open>Serve\<close> up to its first nested call: it either ends with an
  outcome and a trace, or calls \<^verbatim>\<open>Serve\<close> again with a path, after the events so
  far. \<open>Serve_step\<close> below shows that \<open>Serve\<close> is this step, the nested call and
  the deferred \<^verbatim>\<open>recoverPanic\<close>.
\<close>

datatype ('c, 'w, 'e, 'v) serve_step =
    Done "('e, 'v) result \<times> ('c, 'w, 'e, 'v) event list"
  | Nested string "('c, 'w, 'e, 'v) event list"

definition serveStep ::
  "('n, ('c, 'w, 'e, 'v) Handle, 'v) tree_ops \<Rightarrow> ('c, 'w, 'e, 'v, 'n) Router \<Rightarrow> 'c \<Rightarrow> string \<Rightarrow> 'w
     \<Rightarrow> ('c, 'w, 'e, 'v) serve_step" where
  "serveStep ops r ctx reqPath wr =
     (case tree r of
        None \<Rightarrow> Done (notFound (conf r) ctx reqPath wr)
      | Some root \<Rightarrow>
          (case getValue ops root reqPath of (handle, ps, tsr) \<Rightarrow>
             (case handle of
                Some h \<Rightarrow> Done (serveHandle (conf r) ctx reqPath wr h ps)
              | None \<Rightarrow>
                  (if reqPath \<noteq> ''/'' \<and> reqPath \<noteq> [] then
                     (if tsr \<and> RedirectTrailingSlash (conf r) then
                        Nested (toggleSlash reqPath) (getParams ps)
                      else if RedirectFixedPath (conf r) then
                        (case findCaseInsensitivePath ops root (CleanPath reqPath)
                                (RedirectTrailingSlash (conf r)) of
                           (fixedPath, fixedFound) \<Rightarrow>
                             (let tried = getParams ps @
                                    [CallFindCaseInsensitivePath (CleanPath reqPath)
                                       (RedirectTrailingSlash (conf r))]
                              in if fixedFound then Nested fixedPath tried
                                 else (case notFound (conf r) ctx reqPath wr of
                                         (res, log) \<Rightarrow> Done (res, tried @ log))))
                      else (case notFound (conf r) ctx reqPath wr of
                              (res, log) \<Rightarrow> Done (res, getParams ps @ log)))
                   else (case notFound (conf r) ctx reqPath wr of
                           (res, log) \<Rightarrow> Done (res, getParams ps @ log))))))"

text \<open>What the deferred \<^verbatim>\<open>recoverPanic\<close> makes of the outcome of the body, if it was deferred.\<close>

definition deferred ::
  "('c, 'w, 'e, 'v, 'n) Router \<Rightarrow> 'c \<Rightarrow> string \<Rightarrow> 'w
     \<Rightarrow> ('e, 'v) result \<times> ('c, 'w, 'e, 'v) event list \<Rightarrow> ('e, 'v) result \<times> ('c, 'w, 'e, 'v) event list" where
  "deferred r ctx reqPath0 wr body =
     (if PanicHandler (conf r) \<noteq> None then recoverPanic (conf r) ctx reqPath0 wr body else body)"

text \<open>
  A run with recovery: it returns, the panic handler was called at most once, and if
  a handler call panicked the results are the zero values \<open>(false, nil)\<close>.
\<close>

definition recovered :: "('e, 'v) result \<times> ('c, 'w, 'e, 'v) event list \<Rightarrow> bool" where
  "recovered x \<longleftrightarrow>
     (\<exists>found err. fst x = Returns found err)
     \<and> length (filter isPanicHandlerCall (snd x)) \<le> 1
     \<and> ((\<exists>ev \<in> set (snd x). handlerPanic ev \<noteq> None) \<longrightarrow> fst x = Returns False None)"

text \<open>
  The buffers that are out of the pool after a trace, starting from \<open>n\<close>: a
  \<open>PoolGet\<close> takes one out, a \<open>PoolPut\<close> brings one back, and a put with no buffer out
  is \<open>None\<close>.
\<close>

fun outstanding :: "('c, 'w, 'e, 'v) event list \<Rightarrow> nat \<Rightarrow> nat option" where
  "outstanding [] n = Some n"
| "outstanding (PoolGet # log) n = outstanding log (Suc n)"
| "outstanding (PoolPut # log) n = (case n of 0 \<Rightarrow> None | Suc m \<Rightarrow> outstanding log m)"
| "outstanding (ev # log) n = outstanding log n"

section \<open>A tree to run the router on\<close>

text \<open>
  Modelled from the spec: tree.go is not among the sources, so the examples below
  run the router on a tree that is the list of the registered patterns, in order,
  with the matching rules of section 3 of the spec: a static segment matches
  itself, \<open>:name\<close> matches one non-empty segment, \<open>*name\<close> matches the rest of
  the path with its leading slash. \<open>bindRoute\<close> walks a pattern and a path
  segment by segment and yields the parameters bound on the way and whether the
  whole path matched. The buffer is taken when the first placeholder is bound
  (section 4.3), also on a walk that misses afterwards. A miss recommends the
  trailing slash exactly when the path with the slash toggled matches a pattern
  (section 4.3, summary of the rules). Of the registration errors of section 7
  only the duplicate registration is modelled. \<open>countParams\<close> counts the sigils
  \<open>:\<close> and \<open>*\<close>. The case-insensitive repair compares static segments under
  ASCII case folding, copies parameter values from the input and, if asked, tries
  the path with the slash toggled (section 4.4). The theorems below hold for
  every tree; this one only supplies concrete runs.
\<close>

fun bindRoute :: "string list \<Rightarrow> string list \<Rightarrow> Params \<times> bool" where
  "bindRoute [] [] = ([], True)"
| "bindRoute [] (s # ss) = ([], False)"
| "bindRoute (p # ps) [] = ([], False)"
| "bindRoute (p # ps) (s # ss) =
     (if p \<noteq> [] \<and> hd p = CHR '':'' then
        (if s = [] then ([], False)
         else (case bindRoute ps ss of (m, ok) \<Rightarrow> (\<lparr>Key = tl p, Value = s\<rparr> # m, ok)))
      else if p \<noteq> [] \<and> hd p = CHR ''*'' then
        ([\<lparr>Key = tl p, Value = CHR ''/'' # joinPath (s # ss)\<rparr>], True)
      else if p = s then bindRoute ps ss
      else ([], False))"

definition routesGetValue :: "(string \<times> 'h) list \<Rightarrow> string \<Rightarrow> 'h option \<times> Params option \<times> bool" where
  "routesGetValue routes path =
     (let walks = map (\<lambda>(pattern, h). (h, bindRoute (splitPath pattern) (splitPath path))) routes
      in case filter (\<lambda>(h, m, ok). ok) walks of
           (h, m, ok) # _ \<Rightarrow> (Some h, if m = [] then None else Some m, False)
         | [] \<Rightarrow>
             (None,
              (case filter (\<lambda>(h, m, ok). m \<noteq> []) walks of
                 (h, m, ok) # _ \<Rightarrow> Some m
               | [] \<Rightarrow> None),
              list_ex (\<lambda>(pattern, h).
                 snd (bindRoute (splitPath pattern) (splitPath (toggleSlash path)))) routes))"

definition routesAddRoute ::
  "string \<Rightarrow> 'h \<Rightarrow> (string \<times> 'h) list \<Rightarrow> string option option \<times> (string \<times> 'h) list" where
  "routesAddRoute path h routes =
     (if path \<in> set (map fst routes) then (Some (Some ''duplicate-registration''), routes)
      else (None, routes @ [(path, h)]))"

definition routesCountParams :: "string \<Rightarrow> 16 word" where
  "routesCountParams path = of_nat (length (filter (\<lambda>c. c = CHR '':'' \<or> c = CHR ''*'') path))"

definition foldChar :: "char \<Rightarrow> char" where
  "foldChar c = (if 65 \<le> (of_char c :: nat) \<and> (of_char c :: nat) \<le> 90
                 then char_of ((of_char c :: nat) + 32) else c)"

fun fixRoute :: "string list \<Rightarrow> string list \<Rightarrow> string list option" where
  "fixRoute [] [] = Some []"
| "fixRoute [] (s # ss) = None"
| "fixRoute (p # ps) [] = None"
| "fixRoute (p # ps) (s # ss) =
     (if p \<noteq> [] \<and> hd p = CHR '':'' then
        (if s = [] then None else map_option (\<lambda>segs. s # segs) (fixRoute ps ss))
      else if p \<noteq> [] \<and> hd p = CHR ''*'' then Some (s # ss)
      else if map foldChar p = map foldChar s then map_option (\<lambda>segs. p # segs) (fixRoute ps ss)
      else None)"

definition routesFix :: "(string \<times> 'h) list \<Rightarrow> string \<Rightarrow> string option" where
  "routesFix routes path =
     (case List.map_filter (\<lambda>(pattern, h). fixRoute (splitPath pattern) (splitPath path)) routes of
        segs # _ \<Rightarrow> Some (joinPath segs)
      | [] \<Rightarrow> None)"

definition routesFindCaseInsensitivePath ::
  "(string \<times> 'h) list \<Rightarrow> string \<Rightarrow> bool \<Rightarrow> string \<times> bool" where
  "routesFindCaseInsensitivePath routes path fixTrailingSlash =
     (case routesFix routes path of
        Some fixed \<Rightarrow> (fixed, True)
      | None \<Rightarrow>
          (if fixTrailingSlash then
             (case routesFix routes (toggleSlash path) of
                Some fixed \<Rightarrow> (fixed, True)
              | None \<Rightarrow> ([], False))
           else ([], False)))"

definition routesOps :: "((string \<times> 'h) list, 'h, string) tree_ops" where
  "routesOps = \<lparr>newNode = [], addRoute = routesAddRoute, getValue = routesGetValue,
     findCaseInsensitivePath = routesFindCaseInsensitivePath, countParams = routesCountParams\<rparr>"

section \<open>Example handlers and routers\<close>

text \<open>
  Handlers as in router_test.go: one that returns an error (the handle of
  \<^verbatim>\<open>TestRouter\<close> on wrong parameters), one that declines with \<open>(false, nil)\<close>
  (\<^verbatim>\<open>buildHandler(nil)\<close>), one that panics (\<^verbatim>\<open>TestRouterPanicHandler\<close>), one that
  serves; a panic handler that itself panics; and routers with
  the single route \<open>/user/:name\<close>, \<open>/path\<close> or \<open>/\<close>, built by \<open>AddHandler\<close>.
\<close>

definition failingHandle :: "(unit, unit, string, string) Handle" where
  "failingHandle ctx reqPath p rw = Returns False (Some ''wrong wildcard values'')"

definition decliningHandle :: "(unit, unit, string, string) Handle" where
  "decliningHandle ctx reqPath p rw = Returns False None"

definition panickingHandle :: "(unit, unit, string, string) Handle" where
  "panickingHandle ctx reqPath p rw = Panics (Some ''handler panic'')"

definition panickingTrap :: "unit \<Rightarrow> string \<Rightarrow> unit \<Rightarrow> string \<Rightarrow> string trap_result" where
  "panickingTrap ctx reqPath rw panicErr = TrapPanics (Some ''again'')"

definition servingHandle :: "(unit, unit, string, string) Handle" where
  "servingHandle ctx reqPath p rw = Returns True None"

definition rootRouter ::
  "(unit, unit, string, string) RouterConfig \<Rightarrow> (unit, unit, string, string) Handle
     \<Rightarrow> (unit, unit, string, string, (string \<times> (unit, unit, string, string) Handle) list) Router" where
  "rootRouter cf h = snd (AddHandler routesOps (NewWithConfig cf) ''/'' (Some h))"

definition pathRouter ::
  "(unit, unit, string, string) RouterConfig \<Rightarrow> (unit, unit, string, string) Handle
     \<Rightarrow> (unit, unit, string, string, (string \<times> (unit, unit, string, string) Handle) list) Router" where
  "pathRouter cf h = snd (AddHandler routesOps (NewWithConfig cf) ''/path'' (Some h))"

definition userRouter ::
  "(unit, unit, string, string) RouterConfig \<Rightarrow> (unit, unit, string, string) Handle
     \<Rightarrow> (unit, unit, string, string, (string \<times> (unit, unit, string, string) Handle) list) Router" where
  "userRouter cf h = snd (AddHandler routesOps (NewWithConfig cf) ''/user/:name'' (Some h))"

section \<open>Theorems about Params\<close>

lemma ByName_no_match:
  "(\<forall>p \<in> set ps. Key p \<noteq> name) \<Longrightarrow> ByName ps name = []"
  by (induction ps) simp_all

lemma ByName_at_first_match:
  "i < length ps \<Longrightarrow> Key (ps ! i) = name \<Longrightarrow> (\<forall>j<i. Key (ps ! j) \<noteq> name)
     \<Longrightarrow> ByName ps name = Value (ps ! i)"
proof (induction ps arbitrary: i)
  case Nil
  then show ?case by simp
next
  case (Cons p ps)
  show ?case
  proof (cases i)
    case 0
    with Cons.prems show ?thesis by simp
  next
    case (Suc k)
    with Cons.prems have "Key p \<noteq> name" by auto
    moreover have "ByName ps name = Value (ps ! k)"
    proof (rule Cons.IH)
      show "k < length ps" using Cons.prems Suc by simp
      show "Key (ps ! k) = name" using Cons.prems Suc by simp
      show "\<forall>j<k. Key (ps ! j) \<noteq> name"
      proof (intro allI impI)
        fix j assume "j < k"
        then have "Suc j < i" using Suc by simp
        with Cons.prems have "Key ((p # ps) ! Suc j) \<noteq> name" by blast
        then show "Key (ps ! j) \<noteq> name" by simp
      qed
    qed
    ultimately show ?thesis using Suc by simp
  qed
qed

text \<open>
  C6. \<open>ps.ByName(name)\<close> is the Value of the first Param of \<open>ps\<close>, in order, whose
  Key equals \<open>name\<close> (the Param at the least index \<open>i\<close> with that key), and it is
  the empty string when no Param of \<open>ps\<close> has that Key.
\<close>

theorem ByName_first_match:
  "(i < length ps \<and> Key (ps ! i) = name \<and> (\<forall>j<i. Key (ps ! j) \<noteq> name)
       \<longrightarrow> ByName ps name = Value (ps ! i))
   \<and> ((\<forall>p \<in> set ps. Key p \<noteq> name) \<longrightarrow> ByName ps name = [])"
  using ByName_at_first_match [of i ps name] ByName_no_match [of ps name] by blast

theorem ByName_first_match_witness:
  "ByName [\<lparr>Key = ''param1'', Value = ''value1''\<rparr>, \<lparr>Key = ''param2'', Value = ''value2''\<rparr>,
           \<lparr>Key = ''param3'', Value = ''value3''\<rparr>] ''param2'' = ''value2''
   \<and> ByName [\<lparr>Key = ''param1'', Value = ''value1''\<rparr>, \<lparr>Key = ''param2'', Value = ''value2''\<rparr>,
             \<lparr>Key = ''param3'', Value = ''value3''\<rparr>] ''noKey'' = []"
proof -
  let ?ps = "[\<lparr>Key = ''param1'', Value = ''value1''\<rparr>, \<lparr>Key = ''param2'', Value = ''value2''\<rparr>,
              \<lparr>Key = ''param3'', Value = ''value3''\<rparr>]"
  have found: "1 < length ?ps \<and> Key (?ps ! 1) = ''param2'' \<and> (\<forall>j<1. Key (?ps ! j) \<noteq> ''param2'')"
    by simp
  have absent: "\<forall>p \<in> set ?ps. Key p \<noteq> ''noKey''"
    by simp
  from ByName_first_match [of 1 ?ps "''param2''"] found
  have "ByName ?ps ''param2'' = Value (?ps ! 1)" by blast
  moreover from ByName_first_match [of 0 ?ps "''noKey''"] absent
  have "ByName ?ps ''noKey'' = []" by blast
  ultimately show ?thesis by simp
qed

section \<open>Theorems about the path cleaner\<close>

lemma splitPath_nonempty: "splitPath cs \<noteq> []"
  by (induction cs) (auto split: list.splits)

lemma splitPath_no_slash: "s \<in> set (splitPath cs) \<Longrightarrow> CHR ''/'' \<notin> set s"
  by (induction cs arbitrary: s) (auto split: list.splits if_splits)

lemma splitPath_plain: "CHR ''/'' \<notin> set s \<Longrightarrow> splitPath s = [s]"
  by (induction s) auto

lemma splitPath_append: "CHR ''/'' \<notin> set s \<Longrightarrow> splitPath (s @ CHR ''/'' # rest) = s # splitPath rest"
  by (induction s) auto

lemma splitPath_joinPath:
  "ss \<noteq> [] \<Longrightarrow> (\<forall>s \<in> set ss. CHR ''/'' \<notin> set s) \<Longrightarrow> splitPath (joinPath ss) = ss"
  by (induction ss rule: joinPath.induct) (auto simp: splitPath_plain splitPath_append)

lemma realSeg_no_slash: "realSeg s \<Longrightarrow> CHR ''/'' \<notin> set s"
  by (simp add: realSeg_def)

lemma realSeg_nonempty: "realSeg s \<Longrightarrow> s \<noteq> []"
  by (simp add: realSeg_def)

lemma cleanStep_real:
  "(\<forall>s \<in> set out. realSeg s) \<Longrightarrow> CHR ''/'' \<notin> set seg \<Longrightarrow> (\<forall>s \<in> set (cleanStep out seg). realSeg s)"
  by (auto simp: cleanStep_def realSeg_def dest: in_set_butlastD)

lemma foldl_cleanStep_real:
  "(\<forall>s \<in> set out. realSeg s) \<Longrightarrow> (\<forall>s \<in> set segs. CHR ''/'' \<notin> set s)
     \<Longrightarrow> (\<forall>s \<in> set (foldl cleanStep out segs). realSeg s)"
proof (induction segs arbitrary: out)
  case Nil
  then show ?case by simp
next
  case (Cons seg segs)
  have "\<forall>s \<in> set (cleanStep out seg). realSeg s"
    using Cons.prems cleanStep_real [of out seg] by simp
  with Cons show ?case by simp
qed

lemma foldl_cleanStep_keeps:
  "(\<forall>s \<in> set segs. realSeg s) \<Longrightarrow> foldl cleanStep out segs = out @ segs"
  by (induction segs arbitrary: out) (auto simp: cleanStep_def realSeg_def)

lemma joinPath_lead: "xs \<noteq> [] \<Longrightarrow> joinPath ([] # xs) = CHR ''/'' # joinPath xs"
  by (cases xs) auto

lemma joinPath_trail: "xs \<noteq> [] \<Longrightarrow> joinPath (xs @ [[]]) = joinPath xs @ ''/''"
  by (induction xs rule: joinPath.induct) auto

lemma joinPath_nonempty: "xs \<noteq> [] \<Longrightarrow> last xs \<noteq> [] \<Longrightarrow> joinPath xs \<noteq> []"
  by (induction xs rule: joinPath.induct) auto

lemma last_joinPath: "xs \<noteq> [] \<Longrightarrow> last xs \<noteq> [] \<Longrightarrow> last (joinPath xs) = last (last xs)"
  by (induction xs rule: joinPath.induct) (auto simp: joinPath_nonempty)

lemma CleanPath_render:
  assumes real: "\<forall>s \<in> set out. realSeg s" and t: "t \<longrightarrow> out \<noteq> []"
  shows "CleanPath (renderPath out t) = renderPath out t"
proof (cases "out = []")
  case True
  then show ?thesis by (simp add: renderPath_def CleanPath_def cleanStep_def)
next
  case False
  let ?segs = "[] # out @ (if t then [[]] else [])"
  have noslash: "\<forall>s \<in> set ?segs. CHR ''/'' \<notin> set s"
    using real by (auto dest: realSeg_no_slash)
  have q: "renderPath out t = joinPath ?segs"
    using False by (simp add: renderPath_def joinPath_lead joinPath_trail)
  have split: "splitPath (renderPath out t) = ?segs"
    unfolding q using noslash by (intro splitPath_joinPath) simp_all
  have fold: "foldl cleanStep [] ?segs = out"
    using real by (simp add: cleanStep_def foldl_cleanStep_keeps)
  have "realSeg (last out)"
    using real False by simp
  then have "last out \<noteq> []" "CHR ''/'' \<notin> set (last out)"
    by (simp_all add: realSeg_nonempty realSeg_no_slash)
  then have "last (last out) \<noteq> CHR ''/''"
    by (metis last_in_set)
  then have last: "(last (renderPath out t) = CHR ''/'') = t"
    using False \<open>last out \<noteq> []\<close> by (simp add: renderPath_def last_joinPath joinPath_nonempty)
  have "renderPath out t \<noteq> []" "hd (renderPath out t) = CHR ''/''"
    by (simp_all add: renderPath_def)
  then show ?thesis
    using split fold last False by (simp add: CleanPath_def)
qed

text \<open>
  C9. The path cleaner is idempotent: cleaning a cleaned path changes nothing,
  \<open>clean(clean(x)) = clean(x)\<close> for every string \<open>x\<close>.
\<close>

theorem CleanPath_idempotent: "CleanPath (CleanPath x) = CleanPath x"
proof (cases "x = []")
  case True
  then show ?thesis by (simp add: CleanPath_def renderPath_def cleanStep_def)
next
  case False
  let ?p = "if hd x \<noteq> CHR ''/'' then CHR ''/'' # x else x"
  let ?out = "foldl cleanStep [] (splitPath ?p)"
  have "\<forall>s \<in> set ?out. realSeg s"
    by (rule foldl_cleanStep_real) (auto dest: splitPath_no_slash)
  moreover have "CleanPath x = renderPath ?out (last x = CHR ''/'' \<and> ?out \<noteq> [])"
    using False by (simp add: CleanPath_def renderPath_def)
  ultimately show ?thesis
    using CleanPath_render [of ?out "last x = CHR ''/'' \<and> ?out \<noteq> []"] by simp
qed

section \<open>The structure of a run of \<open>Serve\<close>\<close>

lemma Serve_body_step:
  "Option.bind
       (let reqPath = (if reqPath0 = [] then ''/'' else reqPath0) in
        case tree r of
          None \<Rightarrow> Some (notFound (conf r) ctx reqPath wr)
        | Some root \<Rightarrow>
            (case getValue ops root reqPath of (handle, ps, tsr) \<Rightarrow>
               (case handle of
                  Some h \<Rightarrow> Some (serveHandle (conf r) ctx reqPath wr h ps)
                | None \<Rightarrow>
                    (if reqPath \<noteq> ''/'' \<and> reqPath \<noteq> [] then
                       (if tsr \<and> RedirectTrailingSlash (conf r) then
                          Option.bind (S ops r ctx (toggleSlash reqPath) wr)
                            (\<lambda>(res, log). Some (res,
                               getParams ps @ CallServe ctx (toggleSlash reqPath) wr # log))
                        else if RedirectFixedPath (conf r) then
                          (case findCaseInsensitivePath ops root (CleanPath reqPath)
                                  (RedirectTrailingSlash (conf r)) of
                             (fixedPath, fixedFound) \<Rightarrow>
                               (let tried = getParams ps @
                                      [CallFindCaseInsensitivePath (CleanPath reqPath)
                                         (RedirectTrailingSlash (conf r))]
                                in if fixedFound then
                                     Option.bind (S ops r ctx fixedPath wr)
                                       (\<lambda>(res, log). Some (res,
                                          tried @ CallServe ctx fixedPath wr # log))
                                   else (case notFound (conf r) ctx reqPath wr of
                                           (res, log) \<Rightarrow> Some (res, tried @ log))))
                        else (case notFound (conf r) ctx reqPath wr of
                                (res, log) \<Rightarrow> Some (res, getParams ps @ log)))
                     else (case notFound (conf r) ctx reqPath wr of
                             (res, log) \<Rightarrow> Some (res, getParams ps @ log))))))
       (\<lambda>body. Some (if PanicHandler (conf r) \<noteq> None
                      then recoverPanic (conf r) ctx reqPath0 wr body else body))
   = Option.bind
       (case serveStep ops r ctx (if reqPath0 = [] then ''/'' else reqPath0) wr of
          Done x \<Rightarrow> Some x
        | Nested p' pre \<Rightarrow>
            Option.bind (S ops r ctx p' wr) (\<lambda>(res, log). Some (res, pre @ CallServe ctx p' wr # log)))
       (\<lambda>body. Some (deferred r ctx reqPath0 wr body))"
proof -
  define q where "q = (if reqPath0 = [] then ''/'' else reqPath0)"
  have dfr: "(\<lambda>body. Some (if PanicHandler (conf r) \<noteq> None
                      then recoverPanic (conf r) ctx reqPath0 wr body else body))
     = (\<lambda>body. Some (deferred r ctx reqPath0 wr body))"
    by (simp add: deferred_def)
  show ?thesis
    unfolding Let_def q_def [symmetric] dfr
  proof (rule arg_cong [where f = "\<lambda>b. Option.bind b (\<lambda>body. Some (deferred r ctx reqPath0 wr body))"])
    show "(case tree r of
          None \<Rightarrow> Some (notFound (conf r) ctx q wr)
        | Some root \<Rightarrow>
            (case getValue ops root q of (handle, ps, tsr) \<Rightarrow>
               (case handle of
                  Some h \<Rightarrow> Some (serveHandle (conf r) ctx q wr h ps)
                | None \<Rightarrow>
                    (if q \<noteq> ''/'' \<and> q \<noteq> [] then
                       (if tsr \<and> RedirectTrailingSlash (conf r) then
                          Option.bind (S ops r ctx (toggleSlash q) wr)
                            (\<lambda>(res, log). Some (res,
                               getParams ps @ CallServe ctx (toggleSlash q) wr # log))
                        else if RedirectFixedPath (conf r) then
                          (case findCaseInsensitivePath ops root (CleanPath q)
                                  (RedirectTrailingSlash (conf r)) of
                             (fixedPath, fixedFound) \<Rightarrow>
                               (if fixedFound then
                                     Option.bind (S ops r ctx fixedPath wr)
                                       (\<lambda>(res, log). Some (res,
                                          (getParams ps @
                                      [CallFindCaseInsensitivePath (CleanPath q)
                                         (RedirectTrailingSlash (conf r))]) @ CallServe ctx fixedPath wr # log))
                                   else (case notFound (conf r) ctx q wr of
                                           (res, log) \<Rightarrow> Some (res, (getParams ps @
                                      [CallFindCaseInsensitivePath (CleanPath q)
                                         (RedirectTrailingSlash (conf r))]) @ log))))
                        else (case notFound (conf r) ctx q wr of
                                (res, log) \<Rightarrow> Some (res, getParams ps @ log)))
                     else (case notFound (conf r) ctx q wr of
                             (res, log) \<Rightarrow> Some (res, getParams ps @ log))))))
       = (case serveStep ops r ctx q wr of
          Done x \<Rightarrow> Some x
        | Nested p' pre \<Rightarrow>
            Option.bind (S ops r ctx p' wr) (\<lambda>(res, log). Some (res, pre @ CallServe ctx p' wr # log)))"
    proof (cases "tree r")
      case None
      then show ?thesis by (simp add: serveStep_def)
    next
      case (Some root)
      obtain handle ps tsr where gv: "getValue ops root q = (handle, ps, tsr)"
        by (cases "getValue ops root q") auto
      obtain fixedPath fixedFound where
        fx: "findCaseInsensitivePath ops root (CleanPath q) (RedirectTrailingSlash (conf r))
               = (fixedPath, fixedFound)"
        by (cases "findCaseInsensitivePath ops root (CleanPath q) (RedirectTrailingSlash (conf r))") auto
      obtain nres nlog where nf: "notFound (conf r) ctx q wr = (nres, nlog)"
        by (cases "notFound (conf r) ctx q wr") auto
      define c where "c \<longleftrightarrow> q \<noteq> ''/'' \<and> q \<noteq> []"
      show ?thesis
        unfolding serveStep_def Let_def c_def [symmetric]
        using Some gv fx nf by (cases handle; cases c) simp_all
    qed
  qed
qed

lemma Serve_step:
  "Serve ops r ctx p wr =
     Option.bind
       (case serveStep ops r ctx (if p = [] then ''/'' else p) wr of
          Done x \<Rightarrow> Some x
        | Nested p' pre \<Rightarrow>
            Option.bind (Serve ops r ctx p' wr) (\<lambda>(res, log). Some (res, pre @ CallServe ctx p' wr # log)))
       (\<lambda>body. Some (deferred r ctx p wr body))"
  by (subst Serve.simps) (rule Serve_body_step)

lemma Serve_run_induct [consumes 1, case_names Done Nested]:
  assumes run: "Serve ops r ctx p wr = Some y"
      and direct: "\<And>p x. serveStep ops r ctx (if p = [] then ''/'' else p) wr = Done x
                     \<Longrightarrow> P p (deferred r ctx p wr x)"
      and nested: "\<And>p p' pre res log.
                     serveStep ops r ctx (if p = [] then ''/'' else p) wr = Nested p' pre
                     \<Longrightarrow> P p' (res, log)
                     \<Longrightarrow> P p (deferred r ctx p wr (res, pre @ CallServe ctx p' wr # log))"
  shows "P p y"
proof -
  have "ops' = ops \<and> r' = r \<and> ctx' = ctx \<and> wr' = wr \<longrightarrow> P p y"
    if "Serve ops' r' ctx' p wr' = Some y" for ops' r' ctx' wr'
    using that
  proof (induction rule: Serve.raw_induct [rotated, consumes 1])
    case (1 S ops' r' ctx' p wr' y)
    show ?case
    proof (intro impI, elim conjE)
      assume eq: "ops' = ops" "r' = r" "ctx' = ctx" "wr' = wr"
      note body = "1.hyps" [unfolded Serve_body_step eq]
      show "P p y"
      proof (cases "serveStep ops r ctx (if p = [] then ''/'' else p) wr")
        case (Done x)
        with body have "y = deferred r ctx p wr x" by simp
        with direct [OF Done] show ?thesis by simp
      next
        case (Nested p' pre)
        with body obtain res log where inner: "S ops r ctx p' wr = Some (res, log)"
          and y: "y = deferred r ctx p wr (res, pre @ CallServe ctx p' wr # log)"
          by (auto split: Option.bind_splits)
        from "1.IH" [OF inner] have "P p' (res, log)" by simp
        from nested [OF Nested this] y show ?thesis by simp
      qed
    qed
  qed
  with run show ?thesis by blast
qed


section \<open>Panics in a run of \<open>Serve\<close>\<close>

lemma handlerPanic_CallHandle [simp]:
  "handlerPanic (CallHandle ctx q p wr res) = (case res of Returns found err \<Rightarrow> None | Panics rcv \<Rightarrow> Some rcv)"
  by (cases res) simp_all

lemma handlerPanic_CallNotFound [simp]:
  "handlerPanic (CallNotFound ctx q p wr res) = (case res of Returns found err \<Rightarrow> None | Panics rcv \<Rightarrow> Some rcv)"
  by (cases res) simp_all

lemma getParams_quiet:
  "ev \<in> set (getParams ps) \<Longrightarrow> handlerPanic ev = None"
  "filter isPanicHandlerCall (getParams ps) = []"
  by (auto simp: getParams_def split: option.splits)

lemma putParams_quiet:
  "ev \<in> set (putParams ps) \<Longrightarrow> handlerPanic ev = None"
  "filter isPanicHandlerCall (putParams ps) = []"
  by (auto simp: putParams_def split: option.splits)

lemma notFound_propagates: "propagates (notFound cf ctx q wr)"
  by (auto simp: propagates_def notFound_def split: option.splits result.splits)

lemma notFound_untrapped: "untrapped (snd (notFound cf ctx q wr))"
  by (auto simp: untrapped_def notFound_def split: option.splits)

lemma propagates_prefix:
  "propagates (res, log) \<Longrightarrow> (\<forall>ev \<in> set pre. handlerPanic ev = None) \<Longrightarrow> propagates (res, pre @ log)"
  by (auto simp: propagates_def)

lemma untrapped_append: "untrapped (xs @ ys) \<longleftrightarrow> untrapped xs \<and> untrapped ys"
  by (simp add: untrapped_def)

lemma serveHandle_propagates: "propagates (serveHandle cf ctx q wr h ps)"
proof -
  obtain nres nlog where nf: "notFound cf ctx q wr = (nres, nlog)"
    by (cases "notFound cf ctx q wr") auto
  with notFound_propagates [of cf ctx q wr] have "propagates (nres, nlog)" by simp
  then show ?thesis
    using nf by (auto simp: propagates_def serveHandle_def Let_def getParams_quiet putParams_quiet
        split: result.splits)
qed

lemma serveHandle_untrapped: "untrapped (snd (serveHandle cf ctx q wr h ps))"
proof -
  obtain nres nlog where nf: "notFound cf ctx q wr = (nres, nlog)"
    by (cases "notFound cf ctx q wr") auto
  with notFound_untrapped [of cf ctx q wr] have "untrapped nlog" by simp
  then show ?thesis
    using nf by (auto simp: untrapped_def serveHandle_def Let_def getParams_quiet putParams_quiet
        split: result.splits)
qed

lemma serveStep_Done:
  assumes "serveStep ops r ctx q wr = Done x"
  shows "propagates x \<and> untrapped (snd x)"
proof (cases "tree r")
  case None
  with assms show ?thesis
    using notFound_propagates [of "conf r" ctx q wr] notFound_untrapped [of "conf r" ctx q wr]
    by (auto simp: serveStep_def)
next
  case (Some root)
  obtain handle ps tsr where gv: "getValue ops root q = (handle, ps, tsr)"
    by (cases "getValue ops root q") auto
  obtain fixedPath fixedFound where
    fx: "findCaseInsensitivePath ops root (CleanPath q) (RedirectTrailingSlash (conf r))
           = (fixedPath, fixedFound)"
    by (cases "findCaseInsensitivePath ops root (CleanPath q) (RedirectTrailingSlash (conf r))") auto
  obtain nres nlog where nf: "notFound (conf r) ctx q wr = (nres, nlog)"
    by (cases "notFound (conf r) ctx q wr") auto
  have np: "propagates (nres, nlog)" and nu: "untrapped nlog"
    using notFound_propagates [of "conf r" ctx q wr] notFound_untrapped [of "conf r" ctx q wr] nf
    by simp_all
  define c where "c \<longleftrightarrow> q \<noteq> ''/'' \<and> q \<noteq> []"
  show ?thesis
  proof (cases handle)
    case (Some h)
    with assms \<open>tree r = Some root\<close> gv have "x = serveHandle (conf r) ctx q wr h ps"
      by (simp add: serveStep_def)
    then show ?thesis by (simp add: serveHandle_propagates serveHandle_untrapped)
  next
    case None
    from assms [unfolded serveStep_def Let_def c_def [symmetric]] \<open>tree r = Some root\<close> gv fx nf None
    have "x = (nres, getParams ps @ nlog)
        \<or> x = (nres, (getParams ps @ [CallFindCaseInsensitivePath (CleanPath q)
                                         (RedirectTrailingSlash (conf r))]) @ nlog)"
      by (auto split: if_splits)
    then show ?thesis
      using np nu by (auto simp: propagates_def untrapped_def getParams_quiet)
  qed
qed

lemma serveStep_Nested:
  assumes "serveStep ops r ctx q wr = Nested p' pre"
  shows "(\<forall>ev \<in> set pre. handlerPanic ev = None) \<and> untrapped pre"
proof (cases "tree r")
  case None
  with assms show ?thesis by (simp add: serveStep_def)
next
  case (Some root)
  obtain handle ps tsr where gv: "getValue ops root q = (handle, ps, tsr)"
    by (cases "getValue ops root q") auto
  obtain fixedPath fixedFound where
    fx: "findCaseInsensitivePath ops root (CleanPath q) (RedirectTrailingSlash (conf r))
           = (fixedPath, fixedFound)"
    by (cases "findCaseInsensitivePath ops root (CleanPath q) (RedirectTrailingSlash (conf r))") auto
  obtain nres nlog where nf: "notFound (conf r) ctx q wr = (nres, nlog)"
    by (cases "notFound (conf r) ctx q wr") auto
  define c where "c \<longleftrightarrow> q \<noteq> ''/'' \<and> q \<noteq> []"
  from assms [unfolded serveStep_def Let_def c_def [symmetric]] Some gv fx nf
  have "pre = getParams ps
      \<or> pre = getParams ps @ [CallFindCaseInsensitivePath (CleanPath q)
                                 (RedirectTrailingSlash (conf r))]"
    by (cases handle) (auto split: if_splits)
  then show ?thesis
    by (auto simp: untrapped_def getParams_quiet)
qed

lemma recoverPanic_Returns [simp]:
  "recoverPanic cf ctx p wr (Returns found err, log) = (Returns found err, log)"
  by (simp add: recoverPanic_def)

lemma recoverPanic_Panics:
  "\<exists>traps. recoverPanic cf ctx p wr (Panics rcv, log) = (Returns False None, log @ traps)
       \<and> length (filter isPanicHandlerCall traps) \<le> 1
       \<and> (\<forall>ev \<in> set traps. handlerPanic ev = None)"
  by (cases "PanicHandler cf"; cases rcv)
     (auto simp: recoverPanic_def split: trap_result.splits)

lemma Serve_propagates:
  assumes "Serve ops r ctx p wr = Some y" and "PanicHandler (conf r) = None"
  shows "propagates y"
  using assms(1)
proof (induction rule: Serve_run_induct)
  case (Done p x)
  then show ?case using assms(2) serveStep_Done by (fastforce simp: deferred_def)
next
  case (Nested p p' pre res log)
  from serveStep_Nested [OF Nested(1)] have "\<forall>ev \<in> set (pre @ [CallServe ctx p' wr]). handlerPanic ev = None"
    by simp
  with Nested(2) have "propagates (res, (pre @ [CallServe ctx p' wr]) @ log)"
    by (rule propagates_prefix)
  then show ?case using assms(2) by (simp add: deferred_def)
qed

lemma deferred_recovered:
  assumes "PanicHandler (conf r) \<noteq> None" and "propagates x" and "untrapped (snd x)"
  shows "recovered (deferred r ctx p wr x)"
proof (cases x)
  case (Pair res log)
  show ?thesis
  proof (cases res)
    case (Returns found err)
    with Pair assms show ?thesis
      by (auto simp: deferred_def recovered_def propagates_def untrapped_def)
  next
    case (Panics rcv)
    from recoverPanic_Panics [of "conf r" ctx p wr rcv log]
    obtain traps where "recoverPanic (conf r) ctx p wr (Panics rcv, log) = (Returns False None, log @ traps)"
      and "length (filter isPanicHandlerCall traps) \<le> 1" by blast
    with Pair Panics assms show ?thesis
      by (auto simp: deferred_def recovered_def untrapped_def)
  qed
qed

lemma Serve_recovered:
  assumes "Serve ops r ctx p wr = Some y" and "PanicHandler (conf r) \<noteq> None"
  shows "recovered y"
  using assms(1)
proof (induction rule: Serve_run_induct)
  case (Done p x)
  from serveStep_Done [OF Done] assms(2) show ?case by (simp add: deferred_recovered)
next
  case (Nested p p' pre res log)
  from Nested(2) obtain found err where res: "res = Returns found err"
    by (auto simp: recovered_def)
  from serveStep_Nested [OF Nested(1)]
  have quiet: "\<forall>ev \<in> set pre. handlerPanic ev = None" and "filter isPanicHandlerCall pre = []"
    by (simp_all add: untrapped_def)
  with Nested(2) res show ?case
    using assms(2) by (auto simp: deferred_def recovered_def)
qed

section \<open>Runs of the example routers\<close>

lemmas fixture_defs = routesOps_def routesGetValue_def routesAddRoute_def routesCountParams_def
  routesFindCaseInsensitivePath_def routesFix_def

lemma userRouter_eval:
  "userRouter cf h = \<lparr>conf = cf, tree = Some [(''/user/:name'', h)], paramsPoolNew = True, maxParams = 1\<rparr>"
  by (simp add: userRouter_def AddHandler_def NewWithConfig_def fixture_defs)

lemma user_gopher:
  "getValue routesOps [(''/user/:name'', h)] ''/user/gopher''
     = (Some h, Some [\<lparr>Key = ''name'', Value = ''gopher''\<rparr>], False)"
  by (simp add: fixture_defs)


lemma pathRouter_eval:
  "pathRouter cf h = \<lparr>conf = cf, tree = Some [(''/path'', h)], paramsPoolNew = False, maxParams = 0\<rparr>"
  by (simp add: pathRouter_def AddHandler_def NewWithConfig_def fixture_defs)

lemma path_hit: "getValue routesOps [(''/path'', h)] ''/path'' = (Some h, None, False)"
  by (simp add: fixture_defs)

lemma path_slash_miss: "getValue routesOps [(''/path'', h)] ''/path/'' = (None, None, True)"
  by (simp add: fixture_defs toggleSlash_def)

section \<open>Direct and nested runs\<close>

lemma Serve_found:
  assumes "tree r = Some root"
      and "getValue ops root (if reqPath = [] then ''/'' else reqPath) = (Some handle, ps, tsr)"
  shows "Serve ops r ctx reqPath wr =
           Some (deferred r ctx reqPath wr
                   (serveHandle (conf r) ctx (if reqPath = [] then ''/'' else reqPath) wr handle ps))"
proof -
  have "serveStep ops r ctx (if reqPath = [] then ''/'' else reqPath) wr =
          Done (serveHandle (conf r) ctx (if reqPath = [] then ''/'' else reqPath) wr handle ps)"
    using assms by (simp add: serveStep_def)
  then show ?thesis by (subst Serve_step) simp
qed

lemma Serve_no_tree:
  assumes "tree r = None"
  shows "Serve ops r ctx reqPath wr =
           Some (deferred r ctx reqPath wr
                   (notFound (conf r) ctx (if reqPath = [] then ''/'' else reqPath) wr))"
proof -
  have "serveStep ops r ctx (if reqPath = [] then ''/'' else reqPath) wr =
          Done (notFound (conf r) ctx (if reqPath = [] then ''/'' else reqPath) wr)"
    using assms by (simp add: serveStep_def)
  then show ?thesis by (subst Serve_step) simp
qed

lemma Serve_nested:
  assumes "serveStep ops r ctx (if reqPath = [] then ''/'' else reqPath) wr = Nested p' pre"
  shows "Serve ops r ctx reqPath wr =
           Option.bind (Serve ops r ctx p' wr)
             (\<lambda>(res, log). Some (res, pre @ CallServe ctx p' wr # log))"
proof (cases "Serve ops r ctx p' wr")
  case None
  with assms show ?thesis by (subst Serve_step) simp
next
  case (Some y)
  obtain res log where y: "y = (res, log)" by (cases y) auto
  have "deferred r ctx reqPath wr (res, pre @ CallServe ctx p' wr # log)
          = (res, pre @ CallServe ctx p' wr # log)"
  proof (cases "PanicHandler (conf r) = None")
    case True
    then show ?thesis by (simp add: deferred_def)
  next
    case False
    with Serve_recovered [OF Some] y obtain found err where "res = Returns found err"
      by (auto simp: recovered_def)
    then show ?thesis by (simp add: deferred_def)
  qed
  with assms Some y show ?thesis by (subst Serve_step) simp
qed

lemma toggleSlash_eq:
  "reqPath \<noteq> [] \<Longrightarrow>
   toggleSlash reqPath =
     (if length reqPath > 1 \<and> last reqPath = CHR ''/'' then butlast reqPath else reqPath @ ''/'')"
  by (simp add: toggleSlash_def last_conv_nth butlast_conv_take)

section \<open>Theorems about \<open>Serve\<close>\<close>

text \<open>
  C2. If the handle that the lookup of the request path finds returns a non-nil
  error \<open>err\<close> with a flag \<open>found\<close>, \<open>Serve\<close> returns exactly \<open>(found, err)\<close>.
  The trace of the call is the borrowed buffer (if any), the call of the handle
  and the return of the buffer: the not-found handler is not called, and there is
  no nested call of \<open>Serve\<close> and no case-insensitive repair.
\<close>

theorem Serve_handler_error:
  assumes "tree r = Some root"
      and "q = (if reqPath = [] then ''/'' else reqPath)"
      and "getValue ops root q = (Some handle, ps, tsr)"
      and "params = (case ps of None \<Rightarrow> [] | Some p \<Rightarrow> p)"
      and "handle ctx q params wr = Returns found (Some err)"
  shows "Serve ops r ctx reqPath wr =
           Some (Returns found (Some err),
                 getParams ps @ [CallHandle ctx q params wr (Returns found (Some err))] @ putParams ps)"
proof -
  have "serveHandle (conf r) ctx q wr handle ps =
      (Returns found (Some err),
       getParams ps @ [CallHandle ctx q params wr (Returns found (Some err))] @ putParams ps)"
    using assms(4,5) by (simp add: serveHandle_def Let_def)
  with Serve_found [of r root ops reqPath handle ps tsr ctx wr] assms(1,2,3) show ?thesis
    by (simp add: deferred_def)
qed

theorem Serve_handler_error_witness:
  "Serve routesOps (userRouter DefaultConfig failingHandle) () ''/user/gopher'' () =
     Some (Returns False (Some ''wrong wildcard values''),
           [PoolGet,
            CallHandle () ''/user/gopher'' [\<lparr>Key = ''name'', Value = ''gopher''\<rparr>] ()
              (Returns False (Some ''wrong wildcard values'')),
            PoolPut])"
proof -
  have t: "tree (userRouter DefaultConfig failingHandle) = Some [(''/user/:name'', failingHandle)]"
    by (simp add: userRouter_eval)
  have q: "''/user/gopher'' = (if ''/user/gopher'' = [] then ''/'' else ''/user/gopher'')"
    by simp
  have p: "[\<lparr>Key = ''name'', Value = ''gopher''\<rparr>]
             = (case Some [\<lparr>Key = ''name'', Value = ''gopher''\<rparr>] of None \<Rightarrow> [] | Some p \<Rightarrow> p)"
    by simp
  have h: "failingHandle () ''/user/gopher'' [\<lparr>Key = ''name'', Value = ''gopher''\<rparr>] ()
             = Returns False (Some ''wrong wildcard values'')"
    by (simp add: failingHandle_def)
  from Serve_handler_error [where handle = failingHandle, OF t q user_gopher [of failingHandle] p h]
  show ?thesis
    by (simp add: getParams_def putParams_def)
qed

text \<open>
  C3. If the lookup of the request path finds a handle and the handle returns
  \<open>(false, nil)\<close>, \<open>Serve\<close> goes straight to the not-found fallback: with no
  not-found handler it returns \<open>(false, nil)\<close>; otherwise it calls the not-found
  handler with the request path and empty parameters and ends as that call ends
  (its results are returned; \<open>deferred\<close> is the deferred recovery, which leaves a
  returned result as it is). The trace has no nested call of \<open>Serve\<close> and no
  case-insensitive repair.
\<close>

theorem Serve_handler_declines:
  assumes "tree r = Some root"
      and "q = (if reqPath = [] then ''/'' else reqPath)"
      and "getValue ops root q = (Some handle, ps, tsr)"
      and "params = (case ps of None \<Rightarrow> [] | Some p \<Rightarrow> p)"
      and "handle ctx q params wr = Returns False None"
      and "called = getParams ps @ [CallHandle ctx q params wr (Returns False None)]"
  shows "Serve ops r ctx reqPath wr =
           Some (deferred r ctx reqPath wr
                  (case NotFound (conf r) of
                     None \<Rightarrow> (Returns False None, called @ putParams ps)
                   | Some nf \<Rightarrow>
                       (nf ctx q [] wr,
                        called @ [CallNotFound ctx q [] wr (nf ctx q [] wr)] @ putParams ps)))
         \<and> (NotFound (conf r) = None \<longrightarrow>
              Serve ops r ctx reqPath wr = Some (Returns False None, called @ putParams ps))
         \<and> (\<forall>nf found err. NotFound (conf r) = Some nf \<and> nf ctx q [] wr = Returns found err \<longrightarrow>
              Serve ops r ctx reqPath wr =
                Some (Returns found err,
                      called @ [CallNotFound ctx q [] wr (Returns found err)] @ putParams ps))"
proof -
  have "serveHandle (conf r) ctx q wr handle ps =
      (case NotFound (conf r) of
         None \<Rightarrow> (Returns False None, called @ putParams ps)
       | Some nf \<Rightarrow>
           (nf ctx q [] wr, called @ [CallNotFound ctx q [] wr (nf ctx q [] wr)] @ putParams ps))"
    using assms(4,5,6) by (simp add: serveHandle_def notFound_def Let_def split: option.splits)
  with Serve_found [of r root ops reqPath handle ps tsr ctx wr] assms(1,2,3)
  have run: "Serve ops r ctx reqPath wr =
           Some (deferred r ctx reqPath wr
                  (case NotFound (conf r) of
                     None \<Rightarrow> (Returns False None, called @ putParams ps)
                   | Some nf \<Rightarrow>
                       (nf ctx q [] wr,
                        called @ [CallNotFound ctx q [] wr (nf ctx q [] wr)] @ putParams ps)))"
    by simp
  then show ?thesis
    by (auto simp: deferred_def)
qed

theorem Serve_handler_declines_witness:
  "Serve routesOps (userRouter (DefaultConfig\<lparr>NotFound := Some servingHandle\<rparr>) decliningHandle) () ''/user/gopher'' () =
     Some (Returns True None,
           [PoolGet,
            CallHandle () ''/user/gopher'' [\<lparr>Key = ''name'', Value = ''gopher''\<rparr>] () (Returns False None),
            CallNotFound () ''/user/gopher'' [] () (Returns True None),
            PoolPut])
   \<and> Serve routesOps (userRouter DefaultConfig decliningHandle) () ''/user/gopher'' () =
     Some (Returns False None,
           [PoolGet,
            CallHandle () ''/user/gopher'' [\<lparr>Key = ''name'', Value = ''gopher''\<rparr>] () (Returns False None),
            PoolPut])"
proof -
  let ?cf = "DefaultConfig\<lparr>NotFound := Some servingHandle\<rparr> :: (unit, unit, string, string) RouterConfig"
  let ?params = "[\<lparr>Key = ''name'', Value = ''gopher''\<rparr>]"
  let ?called = "[PoolGet, CallHandle () ''/user/gopher'' ?params () (Returns False None)]
                   :: (unit, unit, string, string) event list"
  have t: "tree (userRouter cf decliningHandle) = Some [(''/user/:name'', decliningHandle)]" for cf
    by (simp add: userRouter_eval)
  have q: "''/user/gopher'' = (if ''/user/gopher'' = [] then ''/'' else ''/user/gopher'')"
    by simp
  have p: "?params = (case Some ?params of None \<Rightarrow> [] | Some p \<Rightarrow> p)"
    by simp
  have h: "decliningHandle () ''/user/gopher'' ?params () = Returns False None"
    by (simp add: decliningHandle_def)
  have c: "?called = getParams (Some ?params) @ [CallHandle () ''/user/gopher'' ?params () (Returns False None)]"
    by (simp add: getParams_def)
  have nf: "NotFound (conf (userRouter ?cf decliningHandle)) = Some servingHandle
              \<and> servingHandle () ''/user/gopher'' [] () = Returns True None"
    by (simp add: userRouter_eval servingHandle_def)
  have none: "NotFound (conf (userRouter DefaultConfig decliningHandle)) = None"
    by (simp add: userRouter_eval DefaultConfig_def)
  from Serve_handler_declines [where handle = decliningHandle, OF t q user_gopher [of decliningHandle] p h c] nf
  have "Serve routesOps (userRouter ?cf decliningHandle) () ''/user/gopher'' () =
          Some (Returns True None,
                ?called @ [CallNotFound () ''/user/gopher'' [] () (Returns True None)]
                  @ putParams (Some ?params))"
    by blast
  moreover
  from Serve_handler_declines [where handle = decliningHandle, OF t q user_gopher [of decliningHandle] p h c] none
  have "Serve routesOps (userRouter DefaultConfig decliningHandle) () ''/user/gopher'' () =
          Some (Returns False None, ?called @ putParams (Some ?params))"
    by blast
  ultimately show ?thesis
    by (simp add: putParams_def)
qed

text \<open>
  C4. With the redirect-trailing-slash option set and a request path other than
  \<open>/\<close> and the empty path: if the lookup returns no handle and \<open>tsr = true\<close>,
  \<open>Serve\<close> returns what the nested call of \<open>Serve\<close> returns for the path with the
  slash toggled (the final \<open>/\<close> removed when the path is longer than 1 and ends in
  \<open>/\<close>, a \<open>/\<close> appended otherwise); it returns exactly when the nested call does.
\<close>

theorem Serve_trailing_slash_redirect:
  assumes "tree r = Some root"
      and "RedirectTrailingSlash (conf r)"
      and "reqPath \<noteq> ''/''" and "reqPath \<noteq> []"
      and "getValue ops root reqPath = (None, ps, True)"
      and "toggled = (if length reqPath > 1 \<and> last reqPath = CHR ''/''
                      then butlast reqPath else reqPath @ ''/'')"
  shows "Serve ops r ctx reqPath wr =
           Option.bind (Serve ops r ctx toggled wr)
             (\<lambda>(res, log). Some (res, getParams ps @ CallServe ctx toggled wr # log))
         \<and> map_option fst (Serve ops r ctx reqPath wr) = map_option fst (Serve ops r ctx toggled wr)"
proof -
  have "serveStep ops r ctx (if reqPath = [] then ''/'' else reqPath) wr = Nested toggled (getParams ps)"
    using assms by (simp add: serveStep_def toggleSlash_eq)
  from Serve_nested [OF this]
  have run: "Serve ops r ctx reqPath wr =
           Option.bind (Serve ops r ctx toggled wr)
             (\<lambda>(res, log). Some (res, getParams ps @ CallServe ctx toggled wr # log))" .
  moreover have "map_option fst (Serve ops r ctx reqPath wr) = map_option fst (Serve ops r ctx toggled wr)"
    unfolding run by (cases "Serve ops r ctx toggled wr") auto
  ultimately show ?thesis by blast
qed

theorem Serve_trailing_slash_redirect_witness:
  "Serve routesOps (pathRouter DefaultConfig servingHandle) () ''/path/'' () =
     Some (Returns True None,
           [CallServe () ''/path'' (), CallHandle () ''/path'' [] () (Returns True None)])"
proof -
  let ?r = "pathRouter DefaultConfig servingHandle"
  have t: "tree ?r = Some [(''/path'', servingHandle)]"
    by (simp add: pathRouter_eval)
  have tsr: "RedirectTrailingSlash (conf ?r)"
    by (simp add: pathRouter_eval DefaultConfig_def)
  have ne: "''/path/'' \<noteq> ''/''" "''/path/'' \<noteq> []"
    by simp_all
  have tog: "''/path'' = (if length ''/path/'' > 1 \<and> last ''/path/'' = CHR ''/''
                          then butlast ''/path/'' else ''/path/'' @ ''/'')"
    by simp
  have inner: "Serve routesOps ?r () ''/path'' () =
                 Some (Returns True None, [CallHandle () ''/path'' [] () (Returns True None)])"
    using Serve_found [of ?r "[(''/path'', servingHandle)]" routesOps "''/path''" servingHandle None False "()" "()"] t
    by (simp add: path_hit deferred_def pathRouter_eval DefaultConfig_def serveHandle_def
        getParams_def putParams_def servingHandle_def)
  from Serve_trailing_slash_redirect [OF t tsr ne path_slash_miss [of servingHandle] tog, of "()" "()"]
  show ?thesis
    by (simp add: inner getParams_def)
qed

text \<open>
  C5. With a panic handler configured: if the handle that the lookup finds panics,
  \<open>Serve\<close> does not panic and returns \<open>(false, nil)\<close>; the panic handler is
  called once, after the buffer went back to the pool, with the context, the
  request path as passed to \<open>Serve\<close>, the writer and the recovered value (not at
  all if that value is nil); and the outcome is the same whether the panic handler
  returns or panics itself. In every run of \<open>Serve\<close> that returns, also through
  nested calls, the outcome is a return, the panic handler is called at most
  once, and the results are \<open>(false, nil)\<close> if a handle or the not-found handler
  panicked.
\<close>

theorem Serve_traps_handler_panic:
  assumes "PanicHandler (conf r) = Some ph"
      and "tree r = Some root"
      and "q = (if reqPath = [] then ''/'' else reqPath)"
      and "getValue ops root q = (Some handle, ps, tsr)"
      and "params = (case ps of None \<Rightarrow> [] | Some p \<Rightarrow> p)"
      and "handle ctx q params wr = Panics rcv"
  shows "Serve ops r ctx reqPath wr =
           Some (Returns False None,
                 getParams ps @ [CallHandle ctx q params wr (Panics rcv)] @ putParams ps @
                 (case rcv of
                    None \<Rightarrow> []
                  | Some v \<Rightarrow> [CallPanicHandler ctx reqPath wr v (ph ctx reqPath wr v)]))
         \<and> (\<forall>p res log. Serve ops r ctx p wr = Some (res, log) \<longrightarrow>
                (\<exists>found err. res = Returns found err)
                \<and> length (filter isPanicHandlerCall log) \<le> 1
                \<and> ((\<exists>ev \<in> set log. handlerPanic ev \<noteq> None) \<longrightarrow> res = Returns False None))"
proof (intro conjI allI impI)
  have "serveHandle (conf r) ctx q wr handle ps =
          (Panics rcv, getParams ps @ [CallHandle ctx q params wr (Panics rcv)] @ putParams ps)"
    using assms(5,6) by (simp add: serveHandle_def Let_def)
  with Serve_found [of r root ops reqPath handle ps tsr ctx wr] assms(2,3,4)
  have run: "Serve ops r ctx reqPath wr =
          Some (deferred r ctx reqPath wr
                  (Panics rcv, getParams ps @ [CallHandle ctx q params wr (Panics rcv)] @ putParams ps))"
    by simp
  have "deferred r ctx reqPath wr
                  (Panics rcv, getParams ps @ [CallHandle ctx q params wr (Panics rcv)] @ putParams ps)
      = (Returns False None,
                 getParams ps @ [CallHandle ctx q params wr (Panics rcv)] @ putParams ps @
                 (case rcv of
                    None \<Rightarrow> []
                  | Some v \<Rightarrow> [CallPanicHandler ctx reqPath wr v (ph ctx reqPath wr v)]))"
  proof (cases rcv)
    case None
    with assms(1) show ?thesis by (simp add: deferred_def recoverPanic_def)
  next
    case (Some v)
    with assms(1) show ?thesis
      by (cases "ph ctx reqPath wr v") (simp_all add: deferred_def recoverPanic_def)
  qed
  with run show "Serve ops r ctx reqPath wr =
           Some (Returns False None,
                 getParams ps @ [CallHandle ctx q params wr (Panics rcv)] @ putParams ps @
                 (case rcv of
                    None \<Rightarrow> []
                  | Some v \<Rightarrow> [CallPanicHandler ctx reqPath wr v (ph ctx reqPath wr v)]))"
    by (simp only:)
next
  fix p res log
  assume run: "Serve ops r ctx p wr = Some (res, log)"
  have "recovered (res, log)"
    using Serve_recovered [OF run] assms(1) by simp
  then have parts: "\<exists>found err. res = Returns found err"
    "length (filter isPanicHandlerCall log) \<le> 1"
    "(\<exists>ev \<in> set log. handlerPanic ev \<noteq> None) \<longrightarrow> res = Returns False None"
    by (simp_all add: recovered_def)
  show "\<exists>found err. res = Returns found err" by (rule parts(1))
  show "length (filter isPanicHandlerCall log) \<le> 1" by (rule parts(2))
  assume "\<exists>ev \<in> set log. handlerPanic ev \<noteq> None"
  with parts(3) show "res = Returns False None" by blast
qed

theorem Serve_traps_handler_panic_witness:
  "Serve routesOps (userRouter (DefaultConfig\<lparr>PanicHandler := Some panickingTrap\<rparr>) panickingHandle)
       () ''/user/gopher'' () =
     Some (Returns False None,
           [PoolGet,
            CallHandle () ''/user/gopher'' [\<lparr>Key = ''name'', Value = ''gopher''\<rparr>] ()
              (Panics (Some ''handler panic'')),
            PoolPut,
            CallPanicHandler () ''/user/gopher'' () ''handler panic'' (TrapPanics (Some ''again''))])"
proof -
  let ?cf = "DefaultConfig\<lparr>PanicHandler := Some panickingTrap\<rparr> :: (unit, unit, string, string) RouterConfig"
  let ?params = "[\<lparr>Key = ''name'', Value = ''gopher''\<rparr>]"
  have ph: "PanicHandler (conf (userRouter ?cf panickingHandle)) = Some panickingTrap"
    by (simp add: userRouter_eval)
  have t: "tree (userRouter ?cf panickingHandle) = Some [(''/user/:name'', panickingHandle)]"
    by (simp add: userRouter_eval)
  have q: "''/user/gopher'' = (if ''/user/gopher'' = [] then ''/'' else ''/user/gopher'')"
    by simp
  have p: "?params = (case Some ?params of None \<Rightarrow> [] | Some p \<Rightarrow> p)"
    by simp
  have h: "panickingHandle () ''/user/gopher'' ?params () = Panics (Some ''handler panic'')"
    by (simp add: panickingHandle_def)
  from Serve_traps_handler_panic [where handle = panickingHandle and ph = panickingTrap,
      OF ph t q user_gopher [of panickingHandle] p h]
  have "Serve routesOps (userRouter ?cf panickingHandle) () ''/user/gopher'' () =
          Some (Returns False None,
                getParams (Some ?params)
                @ [CallHandle () ''/user/gopher'' ?params () (Panics (Some ''handler panic''))]
                @ putParams (Some ?params)
                @ [CallPanicHandler () ''/user/gopher'' () ''handler panic''
                     (panickingTrap () ''/user/gopher'' () ''handler panic'')])"
    by simp
  then show ?thesis
    by (simp add: getParams_def putParams_def panickingTrap_def)
qed

text \<open>
  C10. Without a panic handler \<open>Serve\<close> installs no recovery: if the handle that
  the lookup finds panics, \<open>Serve\<close> panics with the same value (after the deferred
  return of the buffer); if the router has no tree and the not-found handler
  panics, \<open>Serve\<close> panics with the same value; and in every run, also through
  nested calls, a panic of a handle or of the not-found handler is the outcome of
  \<open>Serve\<close>, unchanged.
\<close>

theorem Serve_without_panic_handler:
  assumes "PanicHandler (conf r) = None"
      and "q = (if reqPath = [] then ''/'' else reqPath)"
  shows "(tree r = Some root \<and> getValue ops root q = (Some handle, ps, tsr)
            \<and> params = (case ps of None \<Rightarrow> [] | Some p \<Rightarrow> p)
            \<and> handle ctx q params wr = Panics rcv \<longrightarrow>
            Serve ops r ctx reqPath wr =
              Some (Panics rcv,
                    getParams ps @ [CallHandle ctx q params wr (Panics rcv)] @ putParams ps))
         \<and> (tree r = None \<and> NotFound (conf r) = Some nf \<and> nf ctx q [] wr = Panics rcv' \<longrightarrow>
            Serve ops r ctx reqPath wr =
              Some (Panics rcv', [CallNotFound ctx q [] wr (Panics rcv')]))
         \<and> (Serve ops r ctx reqPath wr = Some (res, log) \<and> ev \<in> set log
            \<and> handlerPanic ev = Some rcv'' \<longrightarrow> res = Panics rcv'')"
proof (intro conjI impI)
  assume a: "tree r = Some root \<and> getValue ops root q = (Some handle, ps, tsr)
            \<and> params = (case ps of None \<Rightarrow> [] | Some p \<Rightarrow> p)
            \<and> handle ctx q params wr = Panics rcv"
  then have t: "tree r = Some root" and gv: "getValue ops root q = (Some handle, ps, tsr)"
    and p: "params = (case ps of None \<Rightarrow> [] | Some p \<Rightarrow> p)"
    and h: "handle ctx q params wr = Panics rcv"
    by blast+
  have "serveHandle (conf r) ctx q wr handle ps =
          (Panics rcv, getParams ps @ [CallHandle ctx q params wr (Panics rcv)] @ putParams ps)"
    using p h by (simp add: serveHandle_def Let_def)
  with Serve_found [of r root ops reqPath handle ps tsr ctx wr] t gv assms
  show "Serve ops r ctx reqPath wr =
              Some (Panics rcv,
                    getParams ps @ [CallHandle ctx q params wr (Panics rcv)] @ putParams ps)"
    by (simp add: deferred_def)
next
  assume a: "tree r = None \<and> NotFound (conf r) = Some nf \<and> nf ctx q [] wr = Panics rcv'"
  then have t: "tree r = None" and n: "NotFound (conf r) = Some nf"
    and h: "nf ctx q [] wr = Panics rcv'"
    by blast+
  from Serve_no_tree [OF t, of ops ctx reqPath wr] assms n h
  show "Serve ops r ctx reqPath wr = Some (Panics rcv', [CallNotFound ctx q [] wr (Panics rcv')])"
    by (simp add: deferred_def notFound_def)
next
  assume a: "Serve ops r ctx reqPath wr = Some (res, log) \<and> ev \<in> set log
            \<and> handlerPanic ev = Some rcv''"
  then have run: "Serve ops r ctx reqPath wr = Some (res, log)" and ev: "ev \<in> set log"
    and pn: "handlerPanic ev = Some rcv''"
    by blast+
  from Serve_propagates [OF run assms(1)] ev pn show "res = Panics rcv''"
    by (auto simp: propagates_def)
qed

theorem Serve_without_panic_handler_witness:
  "Serve routesOps (userRouter DefaultConfig panickingHandle) () ''/user/gopher'' () =
     Some (Panics (Some ''handler panic''),
           [PoolGet,
            CallHandle () ''/user/gopher'' [\<lparr>Key = ''name'', Value = ''gopher''\<rparr>] ()
              (Panics (Some ''handler panic'')),
            PoolPut])
   \<and> Serve routesOps
        (NewWithConfig (DefaultConfig\<lparr>NotFound := Some panickingHandle\<rparr>)
           :: (unit, unit, string, string, (string \<times> (unit, unit, string, string) Handle) list) Router)
        () ''/nope'' () =
     Some (Panics (Some ''handler panic''), [CallNotFound () ''/nope'' [] () (Panics (Some ''handler panic''))])"
proof -
  let ?params = "[\<lparr>Key = ''name'', Value = ''gopher''\<rparr>]"
  let ?r = "userRouter DefaultConfig panickingHandle"
  let ?e = "NewWithConfig (DefaultConfig\<lparr>NotFound := Some panickingHandle\<rparr>)
           :: (unit, unit, string, string, (string \<times> (unit, unit, string, string) Handle) list) Router"
  have ph: "PanicHandler (conf ?r) = None"
    by (simp add: userRouter_eval DefaultConfig_def)
  have q: "''/user/gopher'' = (if ''/user/gopher'' = [] then ''/'' else ''/user/gopher'')"
    by simp
  have hit: "tree ?r = Some [(''/user/:name'', panickingHandle)]
       \<and> getValue routesOps [(''/user/:name'', panickingHandle)] ''/user/gopher''
           = (Some panickingHandle, Some ?params, False)
       \<and> ?params = (case Some ?params of None \<Rightarrow> [] | Some p \<Rightarrow> p)
       \<and> panickingHandle () ''/user/gopher'' ?params () = Panics (Some ''handler panic'')"
    by (simp add: userRouter_eval user_gopher panickingHandle_def)
  note one = Serve_without_panic_handler [where handle = panickingHandle
      and root = "[(''/user/:name'', panickingHandle)]" and ops = routesOps and ps = "Some ?params"
      and tsr = False and params = ?params and rcv = "Some ''handler panic''" and ctx = "()" and wr = "()",
      OF ph q, THEN conjunct1, rule_format, OF hit]
  have ph': "PanicHandler (conf ?e) = None"
    by (simp add: NewWithConfig_def DefaultConfig_def)
  have q': "''/nope'' = (if ''/nope'' = [] then ''/'' else ''/nope'')"
    by simp
  have nf: "tree ?e = None \<and> NotFound (conf ?e) = Some panickingHandle
       \<and> panickingHandle () ''/nope'' [] () = Panics (Some ''handler panic'')"
    by (simp add: NewWithConfig_def panickingHandle_def)
  note two = Serve_without_panic_handler [where nf = panickingHandle and ops = routesOps
      and rcv' = "Some ''handler panic''" and ctx = "()" and wr = "()",
      OF ph' q', THEN conjunct2, THEN conjunct1, rule_format, OF nf]
  from one two show ?thesis
    by (simp add: getParams_def putParams_def)
qed

section \<open>The parameter pool\<close>

lemma outstanding_append:
  "outstanding (xs @ ys) n = Option.bind (outstanding xs n) (outstanding ys)"
  by (induction xs n rule: outstanding.induct) (auto split: nat.splits)

lemma getParams_traffic:
  "count_list (getParams ps) PoolGet = (if ps = None then 0 else 1)"
  "count_list (getParams ps) PoolPut = 0"
  "outstanding (getParams ps) n = Some (if ps = None then n else Suc n)"
  by (cases ps; simp add: getParams_def)+

lemma putParams_traffic:
  "count_list (putParams ps) PoolGet = 0"
  "outstanding (putParams ps) (Suc n) = Some (if ps = None then Suc n else n)"
  "ps = None \<Longrightarrow> outstanding (putParams ps) n = Some n"
  by (cases ps; simp add: putParams_def)+

lemma notFound_traffic:
  "count_list (snd (notFound cf ctx q wr)) PoolGet = 0"
  "outstanding (snd (notFound cf ctx q wr)) n = Some n"
  by (cases "NotFound cf"; simp add: notFound_def)+

lemma recoverPanic_traffic:
  "count_list (snd (recoverPanic cf ctx p wr (res, log))) PoolGet = count_list log PoolGet"
  "outstanding log 0 = Some 0 \<Longrightarrow> outstanding (snd (recoverPanic cf ctx p wr (res, log))) 0 = Some 0"
  by (cases res; cases "PanicHandler cf"; simp add: recoverPanic_def outstanding_append
         split: option.splits trap_result.splits)+

lemma deferred_traffic:
  "count_list (snd (deferred r ctx p wr x)) PoolGet = count_list (snd x) PoolGet"
  "outstanding (snd x) 0 = Some 0 \<Longrightarrow> outstanding (snd (deferred r ctx p wr x)) 0 = Some 0"
  by (cases x; simp add: deferred_def recoverPanic_traffic)+

lemma serveHandle_traffic:
  "count_list (snd (serveHandle cf ctx q wr h ps)) PoolGet = (if ps = None then 0 else 1)"
  "outstanding (snd (serveHandle cf ctx q wr h ps)) 0 = Some 0"
proof -
  obtain nres nlog where nf: "notFound cf ctx q wr = (nres, nlog)"
    by (cases "notFound cf ctx q wr") auto
  with notFound_traffic [of cf ctx q wr] have n: "count_list nlog PoolGet = 0"
    "\<And>n. outstanding nlog n = Some n"
    by simp_all
  show "count_list (snd (serveHandle cf ctx q wr h ps)) PoolGet = (if ps = None then 0 else 1)"
    using nf n by (simp add: serveHandle_def Let_def getParams_traffic putParams_traffic
        split: result.splits)
  show "outstanding (snd (serveHandle cf ctx q wr h ps)) 0 = Some 0"
    using nf n by (cases ps)
      (simp_all add: serveHandle_def Let_def getParams_def putParams_def outstanding_append
        split: result.splits)
qed

text \<open>
  C1, as amended. \<open>LookupPath\<close> borrows at most one buffer; when no handle is
  found every borrowed buffer is back in the pool when it returns; when a handle
  is found the borrowed buffer (if any) is still out: it is the \<open>Params\<close> result
  handed to the caller, and the trace is the single \<open>PoolGet\<close>. A call of \<open>Serve\<close>
  whose lookup of the request path finds a handle returns, borrows at most one
  buffer and has put it back when it returns (also when the handle panics or the
  not-found handler runs); a call of \<open>Serve\<close> on a router without a tree returns
  and borrows none.
\<close>

theorem params_buffer_traffic:
  "(case LookupPath ops r path of
      ((handle, params, tsr), log) \<Rightarrow>
        count_list log PoolGet \<le> 1
        \<and> outstanding log 0 = Some (if handle = None then 0 else count_list log PoolGet))
   \<and> (tree r = Some root \<and> getValue ops root path = (Some h, Some p, tsr')
        \<longrightarrow> LookupPath ops r path = ((Some h, p, tsr'), [PoolGet]))
   \<and> (tree r = Some root
        \<and> getValue ops root (if reqPath = [] then ''/'' else reqPath) = (Some h, ps, tsr')
        \<longrightarrow> (\<exists>res log. Serve ops r ctx reqPath wr = Some (res, log)
                \<and> count_list log PoolGet \<le> 1 \<and> outstanding log 0 = Some 0))
   \<and> (tree r = None
        \<longrightarrow> (\<exists>res log. Serve ops r ctx reqPath wr = Some (res, log)
                \<and> count_list log PoolGet = 0 \<and> outstanding log 0 = Some 0))"
proof (intro conjI impI)
  show "case LookupPath ops r path of
      ((handle, params, tsr), log) \<Rightarrow>
        count_list log PoolGet \<le> 1
        \<and> outstanding log 0 = Some (if handle = None then 0 else count_list log PoolGet)"
  proof (cases "tree r")
    case None
    then show ?thesis by (simp add: LookupPath_def)
  next
    case (Some n)
    obtain handle ps tsr where gv: "getValue ops n path = (handle, ps, tsr)"
      by (cases "getValue ops n path") auto
    show ?thesis
      using Some gv by (cases handle; cases ps) (simp_all add: LookupPath_def getParams_def putParams_def)
  qed
next
  assume "tree r = Some root \<and> getValue ops root path = (Some h, Some p, tsr')"
  then show "LookupPath ops r path = ((Some h, p, tsr'), [PoolGet])"
    by (simp add: LookupPath_def getParams_def)
next
  assume a: "tree r = Some root
        \<and> getValue ops root (if reqPath = [] then ''/'' else reqPath) = (Some h, ps, tsr')"
  then have t: "tree r = Some root"
    and gv: "getValue ops root (if reqPath = [] then ''/'' else reqPath) = (Some h, ps, tsr')"
    by blast+
  let ?x = "deferred r ctx reqPath wr
              (serveHandle (conf r) ctx (if reqPath = [] then ''/'' else reqPath) wr h ps)"
  have "Serve ops r ctx reqPath wr = Some (fst ?x, snd ?x)"
    using Serve_found [OF t gv, of ctx wr] by simp
  moreover have "count_list (snd ?x) PoolGet \<le> 1"
    by (simp add: deferred_traffic serveHandle_traffic)
  moreover have "outstanding (snd ?x) 0 = Some 0"
    by (simp add: deferred_traffic serveHandle_traffic)
  ultimately show "\<exists>res log. Serve ops r ctx reqPath wr = Some (res, log)
                \<and> count_list log PoolGet \<le> 1 \<and> outstanding log 0 = Some 0"
    by blast
next
  assume t: "tree r = None"
  let ?x = "deferred r ctx reqPath wr
              (notFound (conf r) ctx (if reqPath = [] then ''/'' else reqPath) wr)"
  have "Serve ops r ctx reqPath wr = Some (fst ?x, snd ?x)"
    using Serve_no_tree [OF t, of ops ctx reqPath wr] by simp
  moreover have "count_list (snd ?x) PoolGet = 0"
    by (simp add: deferred_traffic notFound_traffic)
  moreover have "outstanding (snd ?x) 0 = Some 0"
    by (simp add: deferred_traffic notFound_traffic)
  ultimately show "\<exists>res log. Serve ops r ctx reqPath wr = Some (res, log)
                \<and> count_list log PoolGet = 0 \<and> outstanding log 0 = Some 0"
    by blast
qed

theorem params_buffer_traffic_witness:
  "LookupPath routesOps (userRouter DefaultConfig servingHandle) ''/user/gopher'' =
     ((Some servingHandle, [\<lparr>Key = ''name'', Value = ''gopher''\<rparr>], False), [PoolGet])
   \<and> (\<exists>res log. Serve routesOps (userRouter DefaultConfig servingHandle) () ''/user/gopher'' ()
                   = Some (res, log)
         \<and> count_list log PoolGet \<le> 1 \<and> outstanding log 0 = Some 0)
   \<and> (\<exists>res log. Serve routesOps
          (New :: (unit, unit, string, string, (string \<times> (unit, unit, string, string) Handle) list) Router)
          () ''/nope'' () = Some (res, log)
         \<and> count_list log PoolGet = 0 \<and> outstanding log 0 = Some 0)"
proof -
  let ?r = "userRouter DefaultConfig servingHandle"
  let ?e = "New :: (unit, unit, string, string, (string \<times> (unit, unit, string, string) Handle) list) Router"
  let ?params = "[\<lparr>Key = ''name'', Value = ''gopher''\<rparr>]"
  have hit: "tree ?r = Some [(''/user/:name'', servingHandle)]
      \<and> getValue routesOps [(''/user/:name'', servingHandle)] ''/user/gopher''
          = (Some servingHandle, Some ?params, False)"
    by (simp add: userRouter_eval user_gopher)
  have hit': "tree ?r = Some [(''/user/:name'', servingHandle)]
      \<and> getValue routesOps [(''/user/:name'', servingHandle)]
            (if ''/user/gopher'' = [] then ''/'' else ''/user/gopher'')
          = (Some servingHandle, Some ?params, False)"
    using hit by simp
  have empty: "tree ?e = None"
    by (simp add: New_def NewWithConfig_def)
  note inst = params_buffer_traffic [where ops = routesOps and r = ?r and path = "''/user/gopher''"
      and reqPath = "''/user/gopher''" and root = "[(''/user/:name'', servingHandle)]"
      and h = servingHandle and p = ?params and ps = "Some ?params" and tsr' = False
      and ctx = "()" and wr = "()"]
  note inst' = params_buffer_traffic [where ops = routesOps and r = ?e
      and reqPath = "''/nope''" and ctx = "()" and wr = "()"]
  from inst [THEN conjunct2, THEN conjunct1, rule_format, OF hit]
       inst [THEN conjunct2, THEN conjunct2, THEN conjunct1, rule_format, OF hit']
       inst' [THEN conjunct2, THEN conjunct2, THEN conjunct2, rule_format, OF empty]
  show ?thesis by (simp only:)
qed

text \<open>
  C1 as stated fails: with the route \<open>/user/:name\<close>, \<open>LookupPath("/user/gopher")\<close>
  finds the handle with a parameter, borrows a buffer and does not put it back
  (router.go returns \<^verbatim>\<open>*ps\<close>, the contents of the buffer, to its caller).
\<close>

theorem LookupPath_keeps_buffer_counterexample:
  "fst (fst (LookupPath routesOps (userRouter DefaultConfig servingHandle) ''/user/gopher'')) \<noteq> None
   \<and> snd (LookupPath routesOps (userRouter DefaultConfig servingHandle) ''/user/gopher'') = [PoolGet]
   \<and> outstanding (snd (LookupPath routesOps (userRouter DefaultConfig servingHandle) ''/user/gopher'')) 0
       = Some 1"
  by (simp add: LookupPath_def userRouter_eval user_gopher getParams_def)

text \<open>
  A run of \<open>Serve\<close> outside the amended claim: with the route \<open>/user/:name\<close>, the
  lookup of \<open>/user/gopher/\<close> binds the placeholder, misses and recommends the
  trailing slash. The buffer of that lookup is not put back (\<open>LookupPath\<close> puts it
  back in the same case), and the nested call borrows and returns a second one.
\<close>

lemma user_gopher_slash:
  "getValue routesOps [(''/user/:name'', h)] ''/user/gopher/''
     = (None, Some [\<lparr>Key = ''name'', Value = ''gopher''\<rparr>], True)"
  by (simp add: fixture_defs toggleSlash_def)

lemma Serve_miss_keeps_buffer_example:
  "Serve routesOps (userRouter DefaultConfig servingHandle) () ''/user/gopher/'' () =
     Some (Returns True None,
           [PoolGet, CallServe () ''/user/gopher'' (), PoolGet,
            CallHandle () ''/user/gopher'' [\<lparr>Key = ''name'', Value = ''gopher''\<rparr>] ()
              (Returns True None),
            PoolPut])"
proof -
  let ?r = "userRouter DefaultConfig servingHandle"
  let ?params = "[\<lparr>Key = ''name'', Value = ''gopher''\<rparr>]"
  have t: "tree ?r = Some [(''/user/:name'', servingHandle)]"
    by (simp add: userRouter_eval)
  have inner: "Serve routesOps ?r () ''/user/gopher'' () =
      Some (Returns True None,
            [PoolGet, CallHandle () ''/user/gopher'' ?params () (Returns True None), PoolPut])"
    using Serve_found [of ?r "[(''/user/:name'', servingHandle)]" routesOps "''/user/gopher''"
        servingHandle "Some ?params" False "()" "()"] t
    by (simp add: user_gopher deferred_def userRouter_eval DefaultConfig_def serveHandle_def
        getParams_def putParams_def servingHandle_def)
  have "serveStep routesOps ?r () (if ''/user/gopher/'' = [] then ''/'' else ''/user/gopher/'') ()
          = Nested ''/user/gopher'' [PoolGet]"
    by (simp add: serveStep_def userRouter_eval user_gopher_slash DefaultConfig_def
        toggleSlash_def getParams_def)
  from Serve_nested [OF this] inner show ?thesis by simp
qed

section \<open>Theorems about \<open>AddHandler\<close>\<close>

text \<open>
  C7. \<open>AddHandler\<close> with a nil handle does not panic and returns the router as it
  was (tree, \<open>maxParams\<close>, pool configuration, configuration), so every later
  \<open>LookupPath\<close> and \<open>Serve\<close> is as if the call had not happened.
\<close>

theorem AddHandler_nil_handle:
  "AddHandler ops r path None = (None, r)
   \<and> LookupPath ops (snd (AddHandler ops r path None)) p = LookupPath ops r p
   \<and> Serve ops (snd (AddHandler ops r path None)) ctx p wr = Serve ops r ctx p wr"
  by (simp add: AddHandler_def)

lemma routes_root_route:
  "fst (addRoute routesOps ''/'' h (newNode routesOps)) = None"
  "countParams routesOps ''/'' = 0"
  by (simp_all add: fixture_defs)

text \<open>
  C8, as amended. For every router state, \<open>AddHandler\<close> with the empty path and
  a non-nil handle is not a no-op: it does exactly what \<open>AddHandler("/", handle)\<close>
  does. The path is normalised to \<open>/\<close>, the root is created if the tree was nil,
  and \<open>addRoute("/", handle)\<close> runs on the root. \<open>AddHandler\<close> panics exactly
  when that \<open>addRoute\<close> panics, with the same value; afterwards the tree of the
  router is the root as \<open>addRoute\<close> left it and the configuration is unchanged.
  When \<open>addRoute\<close> did not panic, \<open>maxParams\<close> is the larger of its old value
  and the parameter count of \<open>/\<close>, and the pool's \<open>New\<close> is set if it was set or
  \<open>maxParams\<close> is now positive; when it panicked, both are as before. On a
  router whose tree was nil the router state changes.
\<close>

theorem AddHandler_empty_path:
  "AddHandler ops r [] (Some h) = AddHandler ops r ''/'' (Some h)
   \<and> fst (AddHandler ops r [] (Some h))
       = fst (addRoute ops ''/'' h (case tree r of None \<Rightarrow> newNode ops | Some n \<Rightarrow> n))
   \<and> tree (snd (AddHandler ops r [] (Some h)))
       = Some (snd (addRoute ops ''/'' h (case tree r of None \<Rightarrow> newNode ops | Some n \<Rightarrow> n)))
   \<and> conf (snd (AddHandler ops r [] (Some h))) = conf r
   \<and> (fst (AddHandler ops r [] (Some h)) = None \<longrightarrow>
        maxParams (snd (AddHandler ops r [] (Some h)))
          = (if countParams ops ''/'' > maxParams r then countParams ops ''/'' else maxParams r)
        \<and> paramsPoolNew (snd (AddHandler ops r [] (Some h)))
          = (paramsPoolNew r \<or> maxParams (snd (AddHandler ops r [] (Some h))) > 0))
   \<and> (fst (AddHandler ops r [] (Some h)) \<noteq> None \<longrightarrow>
        maxParams (snd (AddHandler ops r [] (Some h))) = maxParams r
        \<and> paramsPoolNew (snd (AddHandler ops r [] (Some h))) = paramsPoolNew r)
   \<and> (tree r = None \<longrightarrow> snd (AddHandler ops r [] (Some h)) \<noteq> r)"
proof -
  let ?root = "case tree r of None \<Rightarrow> newNode ops | Some n \<Rightarrow> n"
  let ?A = "AddHandler ops r [] (Some h)"
  let ?m = "if countParams ops ''/'' > maxParams r then countParams ops ''/'' else maxParams r"
  obtain pnc root' where ar: "addRoute ops ''/'' h ?root = (pnc, root')"
    by (cases "addRoute ops ''/'' h ?root") auto
  have same: "?A = AddHandler ops r ''/'' (Some h)"
    by (simp add: AddHandler_def)
  have parts: "fst ?A = pnc \<and> tree (snd ?A) = Some root' \<and> conf (snd ?A) = conf r
      \<and> (pnc = None \<longrightarrow> maxParams (snd ?A) = ?m
            \<and> paramsPoolNew (snd ?A) = (paramsPoolNew r \<or> maxParams (snd ?A) > 0))
      \<and> (pnc \<noteq> None \<longrightarrow> maxParams (snd ?A) = maxParams r
            \<and> paramsPoolNew (snd ?A) = paramsPoolNew r)"
  proof (cases pnc)
    case None
    have run: "?A =
        (None,
         (if \<not> paramsPoolNew r \<and> ?m > 0
          then (r\<lparr>tree := Some root', maxParams := ?m\<rparr>)\<lparr>paramsPoolNew := True\<rparr>
          else r\<lparr>tree := Some root', maxParams := ?m\<rparr>))"
      using ar None by (simp add: AddHandler_def Let_def)
    show ?thesis
      unfolding run using None by (cases "\<not> paramsPoolNew r \<and> ?m > 0") auto
  next
    case (Some rcv)
    have run: "?A = (Some rcv, r\<lparr>tree := Some root'\<rparr>)"
      using ar Some by (simp add: AddHandler_def Let_def)
    show ?thesis
      unfolding run using Some by simp
  qed
  have changed: "tree r = None \<longrightarrow> snd ?A \<noteq> r"
  proof
    assume none: "tree r = None"
    show "snd ?A \<noteq> r"
    proof
      assume "snd ?A = r"
      with parts have "tree r = Some root'" by simp
      with none show False by simp
    qed
  qed
  have fstar: "fst (addRoute ops ''/'' h ?root) = pnc" "snd (addRoute ops ''/'' h ?root) = root'"
    using ar by simp_all
  show ?thesis
    unfolding fstar using same parts changed by blast
qed

theorem AddHandler_empty_path_witness:
  "fst (AddHandler routesOps
          (New :: (unit, unit, string, string, (string \<times> (unit, unit, string, string) Handle) list) Router)
          [] (Some servingHandle)) = None
   \<and> maxParams (snd (AddHandler routesOps
          (New :: (unit, unit, string, string, (string \<times> (unit, unit, string, string) Handle) list) Router)
          [] (Some servingHandle))) = 0
   \<and> \<not> paramsPoolNew (snd (AddHandler routesOps
          (New :: (unit, unit, string, string, (string \<times> (unit, unit, string, string) Handle) list) Router)
          [] (Some servingHandle)))
   \<and> snd (AddHandler routesOps
          (New :: (unit, unit, string, string, (string \<times> (unit, unit, string, string) Handle) list) Router)
          [] (Some servingHandle))
       \<noteq> (New :: (unit, unit, string, string, (string \<times> (unit, unit, string, string) Handle) list) Router)"
proof -
  let ?e = "New :: (unit, unit, string, string, (string \<times> (unit, unit, string, string) Handle) list) Router"
  have empty: "tree ?e = None"
    by (simp add: New_def NewWithConfig_def)
  have fresh: "fst (addRoute routesOps ''/'' servingHandle
                     (case tree ?e of None \<Rightarrow> newNode routesOps | Some n \<Rightarrow> n)) = None"
    using empty by (simp add: routes_root_route)
  have zero: "maxParams ?e = 0" "\<not> paramsPoolNew ?e"
    by (simp_all add: New_def NewWithConfig_def)
  note inst = AddHandler_empty_path [where ops = routesOps and r = ?e and h = servingHandle]
  have ok: "fst (AddHandler routesOps ?e [] (Some servingHandle)) = None"
    using inst [THEN conjunct2, THEN conjunct1] fresh by (simp only:)
  from inst [THEN conjunct2, THEN conjunct2, THEN conjunct2, THEN conjunct2, THEN conjunct1,
      rule_format, OF ok]
  have counts: "maxParams (snd (AddHandler routesOps ?e [] (Some servingHandle))) = 0"
    "\<not> paramsPoolNew (snd (AddHandler routesOps ?e [] (Some servingHandle)))"
    using zero by (simp_all add: routes_root_route)
  from inst [THEN conjunct2, THEN conjunct2, THEN conjunct2, THEN conjunct2, THEN conjunct2,
      THEN conjunct2, rule_format, OF empty]
  have changed: "snd (AddHandler routesOps ?e [] (Some servingHandle)) \<noteq> ?e" .
  from ok counts changed show ?thesis by blast
qed

text \<open>
  C8 as stated fails: on a new router, \<open>AddHandler("", handle)\<close> creates the tree
  with the route \<open>/\<close>, and \<open>LookupPath("/")\<close>, which found nothing before, finds
  the handle.
\<close>

theorem AddHandler_empty_path_counterexample:
  "tree (snd (AddHandler routesOps
            (New :: (unit, unit, string, string, (string \<times> (unit, unit, string, string) Handle) list) Router)
            [] (Some servingHandle)))
     = Some [(''/'', servingHandle)]
   \<and> tree (New :: (unit, unit, string, string, (string \<times> (unit, unit, string, string) Handle) list) Router)
     = None
   \<and> fst (fst (LookupPath routesOps
        (New :: (unit, unit, string, string, (string \<times> (unit, unit, string, string) Handle) list) Router)
        ''/'')) = None
   \<and> fst (fst (LookupPath routesOps
        (snd (AddHandler routesOps
            (New :: (unit, unit, string, string, (string \<times> (unit, unit, string, string) Handle) list) Router)
            [] (Some servingHandle))) ''/'')) \<noteq> None"
  by (simp add: AddHandler_def New_def NewWithConfig_def LookupPath_def fixture_defs)

text \<open>
  Whether the handle ends up registered is decided by \<open>addRoute\<close>: on a router
  that already has the route \<open>/\<close>, \<open>AddHandler("", handle)\<close> panics as the
  registration of \<open>/\<close> does, and the router is as before.
\<close>

lemma AddHandler_root_registered_example:
  "AddHandler routesOps (rootRouter DefaultConfig servingHandle) [] (Some decliningHandle)
     = (Some (Some ''duplicate-registration''), rootRouter DefaultConfig servingHandle)"
  by (simp add: rootRouter_def AddHandler_def NewWithConfig_def fixture_defs)

end
